theory Spec2Isabelle
  imports Main
begin

section \<open>The NATS Streaming subscriber of watermill\<close>

text \<open>
  The development embeds \<^verbatim>\<open>message/infrastructure/nats/subscriber.go\<close>:
  the configuration (\<^verbatim>\<open>setDefaults\<close>, \<^verbatim>\<open>Validate\<close>), the constructor, \<^verbatim>\<open>Subscribe\<close>
  with the goroutine it starts per worker, \<^verbatim>\<open>processMessage\<close> and \<^verbatim>\<open>Close\<close>.
  Everything the Go code gets from outside (the broker client, the deserialization
  strategy, which case of a \<^verbatim>\<open>select\<close> fires, how goroutines are interleaved) is a
  parameter of the function that consumes it.
\<close>

subsection \<open>Errors, options, messages\<close>

text \<open>\<^verbatim>\<open>errors.New(msg)\<close> and \<^verbatim>\<open>errors.Wrap(err, msg)\<close> of \<^verbatim>\<open>github.com/pkg/errors\<close>.\<close>

datatype error = errors_New string | errors_Wrap error string

text \<open>
  The connection options and subscription options of the broker client. The source
  builds three subscription options itself; every other option a caller may pass is
  opaque to the subscriber.
\<close>

datatype stan_Option = stan_NatsURL string | stan_OtherOption string

datatype stan_SubscriptionOption =
    stan_SetManualAckMode
  | stan_AckWait int
  | stan_DurableName string
  | stan_OtherSubscriptionOption string

text \<open>
  Contexts: those the caller passes to \<^verbatim>\<open>Subscribe\<close>, and those the delivery callback
  makes with \<^verbatim>\<open>context.WithCancel\<close>, one per message. Only whether a context is done
  matters here; that a derived context is also done once its parent is, is not modelled.
\<close>

datatype go_context = caller_context nat | message_context nat

text \<open>
  A watermill message as far as the subscriber touches it: its UUID, its payload and
  the context attached by \<^verbatim>\<open>SetContext\<close>.
\<close>

record Message =
  UUID :: string
  Payload :: string
  Context :: "go_context option"

text \<open>\<^verbatim>\<open>time.Duration\<close> counts nanoseconds; \<^verbatim>\<open>time.Second\<close> is \<open>10\<^sup>9\<close> of them.\<close>

definition time_Second :: int where
  "time_Second = 1000000000"

subsection \<open>Configuration\<close>

text \<open>
  \<^verbatim>\<open>StreamingSubscriberConfig\<close>. The type \<open>'m\<close> is the broker's message (\<^verbatim>\<open>*stan.Msg\<close>);
  \<^verbatim>\<open>Unmarshaler\<close> is an interface value, \<open>None\<close> when it is \<^verbatim>\<open>nil\<close>. No arithmetic is
  done on the integer fields, they are only compared with 0 and 1, so they are \<open>int\<close>.
\<close>

record 'm StreamingSubscriberConfig =
  ClusterID :: string
  ClientID :: string
  QueueGroup :: string
  DurableName :: string
  SubscribersCount :: int
  CloseTimeout :: int
  AckWaitTimeout :: int
  StanOptions :: "stan_Option list"
  StanSubscriptionOptions :: "stan_SubscriptionOption list"
  Unmarshaler :: "('m \<Rightarrow> error + Message) option"

definition setDefaults :: "'m StreamingSubscriberConfig \<Rightarrow> 'm StreamingSubscriberConfig" where
  "setDefaults c =
    (let c = (if SubscribersCount c \<le> 0 then c\<lparr>SubscribersCount := 1\<rparr> else c);
         c = (if CloseTimeout c \<le> 0 then c\<lparr>CloseTimeout := time_Second * 30\<rparr> else c);
         c = (if AckWaitTimeout c \<le> 0 then c\<lparr>AckWaitTimeout := time_Second * 30\<rparr> else c);
         c = c\<lparr>StanSubscriptionOptions :=
                 StanSubscriptionOptions c @ [stan_SetManualAckMode, stan_AckWait (AckWaitTimeout c)]\<rparr>
     in if DurableName c \<noteq> []
        then c\<lparr>StanSubscriptionOptions :=
                 StanSubscriptionOptions c @ [stan_DurableName (DurableName c)]\<rparr>
        else c)"

definition Validate :: "'m StreamingSubscriberConfig \<Rightarrow> error option" where
  "Validate c =
    (case Unmarshaler c of
       None \<Rightarrow> Some (errors_New ''StreamingSubscriberConfig.Unmarshaler is missing'')
     | Some u \<Rightarrow>
        if QueueGroup c = [] \<and> SubscribersCount c > 1
        then Some (errors_New
          (''to set StreamingSubscriberConfig.SubscribersCount '' @
           ''you need to also set StreamingSubscriberConfig.QueueGroup, '' @
           ''in other case you will receive duplicated messages''))
        else None)"

subsection \<open>The subscriber and the goroutines around it\<close>

text \<open>
  What a goroutine can die of. A panic of \<^verbatim>\<open>Close\<close> is its result; a panic of a goroutine
  that returns nothing (a watcher, a delivery callback) is recorded in the state.
\<close>

datatype panic =
    close_of_closed_channel
  | send_on_closed_channel
  | negative_WaitGroup_counter
  | nil_pointer_dereference

text \<open>Everything observable that the subscriber does, in the order it does it.\<close>

datatype event =
    Log_Debug string
  | Log_Info string
  | Log_Trace string
  | Log_Error string error
  | stan_Connect string string "stan_Option list"
  | outputsWg_Add
  | outputsWg_Done
  | conn_QueueSubscribe string string "stan_SubscriptionOption list"
  | conn_Subscribe string "stan_SubscriptionOption list"
  | go_watcher nat
  | sub_Close nat
  | close_output nat
  | closed_set
  | close_closing
  | WaitGroupTimeout_returned int bool
  | conn_Close
  | processingMessagesWg_Add
  | processingMessagesWg_Done
  | output_send nat Message
  | m_Ack
  | context_WithCancel go_context go_context
  | cancelCtx go_context

text \<open>
  The goroutine that \<^verbatim>\<open>Subscribe\<close> starts for each worker (lines 179 to 192), as the
  values it closes over and the statement it stands at.
\<close>

datatype watcher_pc =
    at_select
  | at_sub_Close
  | at_close_output
  | at_outputsWg_Done
  | returned
  | panicked

record watcher =
  w_sub :: nat
  w_output :: nat
  w_ctx :: go_context
  w_pc :: watcher_pc

text \<open>
  \<^verbatim>\<open>StreamingSubscriber\<close>: the fields \<open>config\<close>, \<open>subs\<close>, \<open>closed\<close>, \<open>closing\<close>,
  \<open>outputsWg\<close> and \<open>processingMessagesWg\<close> are the struct's (\<open>closing\<close> is true once the
  channel is closed; a \<^verbatim>\<open>sync.WaitGroup\<close> is its counter, which Go never lets go below
  zero, hence a \<open>nat\<close>). The connection and the logger are seen through the events. The
  remaining fields are the runtime the struct lives in: the watcher goroutines, the
  subscriptions on which \<^verbatim>\<open>Close()\<close> has not been called, the output channels already closed, the
  contexts already cancelled, the next unused number (channels, subscription handles
  and message contexts are numbered), the panics raised so far and the events so far.
\<close>

record 'm StreamingSubscriber =
  config :: "'m StreamingSubscriberConfig"
  subs :: "nat list"
  closed :: bool
  closing :: bool
  outputsWg :: nat
  processingMessagesWg :: nat
  goroutines :: "watcher list"
  live_subs :: "nat list"
  closed_chans :: "nat list"
  cancelled :: "go_context list"
  fresh :: nat
  panics :: "panic list"
  history :: "event list"

definition emit :: "event \<Rightarrow> 'm StreamingSubscriber \<Rightarrow> 'm StreamingSubscriber" where
  "emit e s = s\<lparr>history := history s @ [e]\<rparr>"

definition raise :: "panic \<Rightarrow> 'm StreamingSubscriber \<Rightarrow> 'm StreamingSubscriber" where
  "raise p s = s\<lparr>panics := panics s @ [p]\<rparr>"

subsection \<open>The constructor\<close>

text \<open>
  \<^verbatim>\<open>NewStreamingSubscriber\<close>. \<open>connect\<close> is \<^verbatim>\<open>stan.Connect\<close>: \<open>None\<close> when the connection
  is made, the error otherwise. The result carries the events of the call, so that a
  connection attempt shows even when no subscriber is returned.
\<close>

definition NewStreamingSubscriber ::
  "'m StreamingSubscriberConfig \<Rightarrow> (string \<Rightarrow> string \<Rightarrow> stan_Option list \<Rightarrow> error option)
     \<Rightarrow> event list \<times> (error + 'm StreamingSubscriber)" where
  "NewStreamingSubscriber config0 connect =
    (let config1 = setDefaults config0 in
     case Validate config1 of
       Some err \<Rightarrow> ([], Inl err)
     | None \<Rightarrow>
        (let attempt = stan_Connect (ClusterID config1) (ClientID config1) (StanOptions config1) in
         case connect (ClusterID config1) (ClientID config1) (StanOptions config1) of
           Some err \<Rightarrow> ([attempt], Inl (errors_Wrap err ''cannot connect to NATS''))
         | None \<Rightarrow>
            ([attempt],
             Inr \<lparr>config = config1, subs = [], closed = False, closing = False,
                  outputsWg = 0, processingMessagesWg = 0, goroutines = [], live_subs = [],
                  closed_chans = [], cancelled = [], fresh = 0, panics = [],
                  history = [attempt]\<rparr>)))"

subsection \<open>Subscribe\<close>

text \<open>
  The method \<^verbatim>\<open>subscribe\<close>: a queue subscription when a queue group is configured, a
  plain one otherwise. \<open>answer\<close> is what the broker client returns for this call:
  \<open>None\<close> for a new subscription (it gets the next unused handle), the error otherwise.
\<close>

definition subscribe ::
  "error option \<Rightarrow> string \<Rightarrow> 'm StreamingSubscriber \<Rightarrow> 'm StreamingSubscriber \<times> (error + nat)" where
  "subscribe answer topic s =
    (let s = (if QueueGroup (config s) \<noteq> []
              then emit (conn_QueueSubscribe topic (QueueGroup (config s))
                           (StanSubscriptionOptions (config s))) s
              else emit (conn_Subscribe topic (StanSubscriptionOptions (config s))) s)
     in case answer of
          Some err \<Rightarrow> (s, Inl err)
        | None \<Rightarrow> (s\<lparr>fresh := Suc (fresh s), live_subs := live_subs s @ [fresh s]\<rparr>, Inr (fresh s)))"

text \<open>
  The loop of \<^verbatim>\<open>Subscribe\<close> (lines 166 to 197), with \<open>i\<close> the loop variable and the
  second number the iterations still to run. \<open>broker i\<close> is the broker's answer to the
  subscribe call of iteration \<open>i\<close>. On an error the loop returns at once; otherwise it
  starts the watcher goroutine, which waits at its \<^verbatim>\<open>select\<close>, and appends the handle to
  \<^verbatim>\<open>s.subs\<close>.
\<close>

fun Subscribe_loop ::
  "(nat \<Rightarrow> error option) \<Rightarrow> go_context \<Rightarrow> string \<Rightarrow> nat \<Rightarrow> nat \<Rightarrow> nat \<Rightarrow> 'm StreamingSubscriber
     \<Rightarrow> 'm StreamingSubscriber \<times> error option" where
  "Subscribe_loop broker ctx topic output i 0 s = (s, None)"
| "Subscribe_loop broker ctx topic output i (Suc n) s =
    (let s = emit (Log_Debug ''Starting subscriber'') s in
     case subscribe (broker i) topic s of
       (s, Inl err) \<Rightarrow> (s, Some (errors_Wrap err ''cannot subscribe''))
     | (s, Inr sub) \<Rightarrow>
        (let s = emit (go_watcher sub)
                   (s\<lparr>goroutines := goroutines s @
                        [\<lparr>w_sub = sub, w_output = output, w_ctx = ctx, w_pc = at_select\<rparr>]\<rparr>);
             s = s\<lparr>subs := subs s @ [sub]\<rparr>
         in Subscribe_loop broker ctx topic output (Suc i) n s))"

text \<open>
  \<^verbatim>\<open>Subscribe(ctx, topic)\<close>: the output channel is made, \<^verbatim>\<open>outputsWg.Add(1)\<close> runs once,
  then the loop runs \<^verbatim>\<open>SubscribersCount\<close> times (not at all for a count below 1). It
  returns the channel or the error.
\<close>

definition Subscribe ::
  "(nat \<Rightarrow> error option) \<Rightarrow> go_context \<Rightarrow> string \<Rightarrow> 'm StreamingSubscriber
     \<Rightarrow> 'm StreamingSubscriber \<times> (error + nat)" where
  "Subscribe broker ctx topic s =
    (let output = fresh s;
         s = s\<lparr>fresh := Suc (fresh s)\<rparr>;
         s = emit outputsWg_Add (s\<lparr>outputsWg := outputsWg s + 1\<rparr>)
     in case Subscribe_loop broker ctx topic output 0 (nat (SubscribersCount (config s))) s of
          (s, Some err) \<Rightarrow> (s, Inl err)
        | (s, None) \<Rightarrow> (s, Inr output))"

text \<open>The caller cancels the context it passed to \<^verbatim>\<open>Subscribe\<close>.\<close>

definition cancel :: "go_context \<Rightarrow> 'm StreamingSubscriber \<Rightarrow> 'm StreamingSubscriber" where
  "cancel ctx s = s\<lparr>cancelled := cancelled s @ [ctx]\<rparr>"

subsection \<open>The watcher goroutines\<close>

definition set_pc :: "nat \<Rightarrow> watcher_pc \<Rightarrow> 'm StreamingSubscriber \<Rightarrow> 'm StreamingSubscriber" where
  "set_pc i pc s = s\<lparr>goroutines := (goroutines s)[i := (goroutines s ! i)\<lparr>w_pc := pc\<rparr>]\<rparr>"

text \<open>
  One statement of watcher \<open>i\<close> (no such goroutine: nothing happens). At the \<^verbatim>\<open>select\<close> it
  stays until \<^verbatim>\<open>s.closing\<close> is closed or its context is done. \<open>sub_close h\<close> is what
  \<^verbatim>\<open>Close()\<close> of subscription \<open>h\<close> returns; an error is logged and the goroutine goes
  on. \<^verbatim>\<open>close(output)\<close> panics on a channel that is closed already, and
  \<^verbatim>\<open>outputsWg.Done()\<close> on a counter that is zero; a goroutine that panicked runs no
  further statement.
\<close>

definition watcher_step ::
  "(nat \<Rightarrow> error option) \<Rightarrow> nat \<Rightarrow> 'm StreamingSubscriber \<Rightarrow> 'm StreamingSubscriber" where
  "watcher_step sub_close i s =
    (if length (goroutines s) \<le> i then s
     else
      (let w = goroutines s ! i in
       case w_pc w of
         at_select \<Rightarrow>
           if closing s \<or> w_ctx w \<in> set (cancelled s) then set_pc i at_sub_Close s else s
       | at_sub_Close \<Rightarrow>
           (let s = emit (sub_Close (w_sub w)) (s\<lparr>live_subs := removeAll (w_sub w) (live_subs s)\<rparr>);
                s = (case sub_close (w_sub w) of
                       Some err \<Rightarrow> emit (Log_Error ''Cannot close subscriber'' err) s
                     | None \<Rightarrow> s)
            in set_pc i at_close_output s)
       | at_close_output \<Rightarrow>
           (let s = emit (close_output (w_output w)) s in
            if w_output w \<in> set (closed_chans s)
            then set_pc i panicked (raise close_of_closed_channel s)
            else set_pc i at_outputsWg_Done (s\<lparr>closed_chans := closed_chans s @ [w_output w]\<rparr>))
       | at_outputsWg_Done \<Rightarrow>
           (let s = emit outputsWg_Done s in
            if outputsWg s = 0
            then set_pc i panicked (raise negative_WaitGroup_counter s)
            else set_pc i returned (s\<lparr>outputsWg := outputsWg s - 1\<rparr>))
       | returned \<Rightarrow> s
       | panicked \<Rightarrow> s))"

text \<open>A schedule names the watcher that runs its next statement, one after the other.\<close>

fun run :: "(nat \<Rightarrow> error option) \<Rightarrow> nat list \<Rightarrow> 'm StreamingSubscriber \<Rightarrow> 'm StreamingSubscriber" where
  "run sub_close [] s = s"
| "run sub_close (i # sched) s = run sub_close sched (watcher_step sub_close i s)"

subsection \<open>Close\<close>

text \<open>
  Modelled from the spec: \<^verbatim>\<open>WaitGroupTimeout\<close> of the package \<^verbatim>\<open>internal/sync\<close>, which is
  not among the sources. The spec has it wait, bounded by the timeout, for the watchers
  to finish, and go on when the bound elapses first. \<open>sched\<close> is what the watchers get
  to do before the bound elapses: the wait is over as soon as the counter is zero, and
  the bound has elapsed (the result is \<open>True\<close>) when the schedule is used up with the
  counter still above zero.
\<close>

fun WaitGroupTimeout ::
  "(nat \<Rightarrow> error option) \<Rightarrow> nat list \<Rightarrow> 'm StreamingSubscriber \<Rightarrow> 'm StreamingSubscriber \<times> bool" where
  "WaitGroupTimeout sub_close [] s = (s, outputsWg s \<noteq> 0)"
| "WaitGroupTimeout sub_close (i # sched) s =
    (if outputsWg s = 0 then (s, False)
     else WaitGroupTimeout sub_close sched (watcher_step sub_close i s))"

text \<open>
  \<^verbatim>\<open>Close\<close>, run under \<^verbatim>\<open>subsLock\<close>, so calls never overlap. \<open>conn_close\<close> is what
  \<^verbatim>\<open>s.conn.Close()\<close> returns. The deferred \<^verbatim>\<open>Info\<close> log runs on every way out after its
  \<^verbatim>\<open>defer\<close>. The result of \<^verbatim>\<open>WaitGroupTimeout\<close> is dropped by the source; the event keeps
  it. \<^verbatim>\<open>close(s.closing)\<close> panics if that channel is closed already.
\<close>

definition Close ::
  "(nat \<Rightarrow> error option) \<Rightarrow> nat list \<Rightarrow> error option \<Rightarrow> 'm StreamingSubscriber
     \<Rightarrow> 'm StreamingSubscriber \<times> (panic + error option)" where
  "Close sub_close sched conn_close s =
    (if closed s then (s, Inr None)
     else
      (let s = emit closed_set (s\<lparr>closed := True\<rparr>);
           s = emit (Log_Debug ''Closing subscriber'') s
       in if closing s
          then (emit (Log_Info ''StreamingSubscriber closed'') (raise close_of_closed_channel s),
                Inl close_of_closed_channel)
          else
           (let s = emit close_closing (s\<lparr>closing := True\<rparr>);
                (s, timeouted) = WaitGroupTimeout sub_close sched s;
                s = emit (WaitGroupTimeout_returned (CloseTimeout (config s)) timeouted) s;
                s = emit conn_Close s
            in case conn_close of
                 Some err \<Rightarrow>
                   (emit (Log_Info ''StreamingSubscriber closed'') s,
                    Inr (Some (errors_Wrap err ''cannot close conn'')))
               | None \<Rightarrow> (emit (Log_Info ''StreamingSubscriber closed'') s, Inr None))))"

text \<open>
  One iteration of the loop of \<^verbatim>\<open>Subscribe\<close> whose broker call succeeds, written out:
  the call the broker sees, and the state after the iteration.
\<close>

definition subscribe_event :: "string \<Rightarrow> 'm StreamingSubscriberConfig \<Rightarrow> event" where
  "subscribe_event topic c =
    (if QueueGroup c \<noteq> []
     then conn_QueueSubscribe topic (QueueGroup c) (StanSubscriptionOptions c)
     else conn_Subscribe topic (StanSubscriptionOptions c))"

definition started :: "go_context \<Rightarrow> string \<Rightarrow> nat \<Rightarrow> 'm StreamingSubscriber \<Rightarrow> 'm StreamingSubscriber" where
  "started ctx topic output s =
    s\<lparr>fresh := Suc (fresh s),
      live_subs := live_subs s @ [fresh s],
      goroutines := goroutines s @
        [\<lparr>w_sub = fresh s, w_output = output, w_ctx = ctx, w_pc = at_select\<rparr>],
      history := history s @
        [Log_Debug ''Starting subscriber'', subscribe_event topic (config s), go_watcher (fresh s)],
      subs := subs s @ [fresh s]\<rparr>"

text \<open>The state in which the loop of \<^verbatim>\<open>Subscribe\<close> starts.\<close>

definition entered :: "'m StreamingSubscriber \<Rightarrow> 'm StreamingSubscriber" where
  "entered s = emit outputsWg_Add (s\<lparr>fresh := Suc (fresh s), outputsWg := outputsWg s + 1\<rparr>)"

text \<open>The state in which \<^verbatim>\<open>Close\<close> starts to wait: flag set, closing signal given.\<close>

definition signalled :: "'m StreamingSubscriber \<Rightarrow> 'm StreamingSubscriber" where
  "signalled s =
    emit close_closing
      ((emit (Log_Debug ''Closing subscriber'') (emit closed_set (s\<lparr>closed := True\<rparr>)))
         \<lparr>closing := True\<rparr>)"

text \<open>
  A client that calls \<^verbatim>\<open>Close\<close> again and again: each call has its own schedule of the
  watchers and its own answer of the connection. The results are collected in order.
\<close>

fun Close_calls ::
  "(nat \<Rightarrow> error option) \<Rightarrow> (nat list \<times> error option) list \<Rightarrow> 'm StreamingSubscriber
     \<Rightarrow> 'm StreamingSubscriber \<times> (panic + error option) list" where
  "Close_calls sub_close [] s = (s, [])"
| "Close_calls sub_close ((sched, conn_close) # calls) s =
    (let (s, r) = Close sub_close sched conn_close s;
         (s, rs) = Close_calls sub_close calls s
     in (s, r # rs))"

text \<open>The events that only a watcher goroutine adds.\<close>

definition watcher_event :: "event \<Rightarrow> bool" where
  "watcher_event e =
    (case e of
       sub_Close h \<Rightarrow> True
     | Log_Error text err \<Rightarrow> text = ''Cannot close subscriber''
     | close_output c \<Rightarrow> True
     | outputsWg_Done \<Rightarrow> True
     | _ \<Rightarrow> False)"

subsection \<open>The delivery callback\<close>

text \<open>
  Which case of a \<^verbatim>\<open>select\<close> fires is decided outside the function: by the consumer
  reading the output channel, acking or nacking, by the timer, by \<^verbatim>\<open>Close\<close>. The two
  selects of \<^verbatim>\<open>processMessage\<close> get their outcome as a parameter.
\<close>

datatype delivery = output_receives | closing_during_delivery

datatype resolution = msg_Acked | msg_Nacked | AckWaitTimeout_elapsed | closing_during_wait

text \<open>The second \<^verbatim>\<open>select\<close> (lines 273 to 288); \<open>ack\<close> is what \<^verbatim>\<open>m.Ack()\<close> returns.\<close>

definition await_resolution ::
  "resolution \<Rightarrow> error option \<Rightarrow> 'm StreamingSubscriber \<Rightarrow> 'm StreamingSubscriber" where
  "await_resolution sel ack s =
    (case sel of
       msg_Acked \<Rightarrow>
         (let s = emit m_Ack s;
              s = (case ack of
                     Some err \<Rightarrow> emit (Log_Error ''Cannot send ack'' err) s
                   | None \<Rightarrow> s)
          in emit (Log_Trace ''Message Acked'') s)
     | msg_Nacked \<Rightarrow> emit (Log_Trace ''Message Nacked'') s
     | AckWaitTimeout_elapsed \<Rightarrow> emit (Log_Trace ''Ack timeouted'') s
     | closing_during_wait \<Rightarrow> emit (Log_Trace ''Closing, message discarded before ack'') s)"

text \<open>
  The first \<^verbatim>\<open>select\<close> (lines 265 to 271) and what follows it. A send on a channel that
  is closed panics.
\<close>

definition deliver ::
  "Message \<Rightarrow> nat \<Rightarrow> delivery \<Rightarrow> resolution \<Rightarrow> error option \<Rightarrow> 'm StreamingSubscriber
     \<Rightarrow> 'm StreamingSubscriber" where
  "deliver msg output sel1 sel2 ack s =
    (case sel1 of
       output_receives \<Rightarrow>
         if output \<in> set (closed_chans s) then raise send_on_closed_channel s
         else await_resolution sel2 ack
                (emit (Log_Trace ''Message sent to consumer'') (emit (output_send output msg) s))
     | closing_during_delivery \<Rightarrow> emit (Log_Trace ''Closing, message discarded'') s)"

text \<open>
  \<^verbatim>\<open>processMessage(ctx, m, output, logFields)\<close>. The two deferred calls run last on
  every way out after their \<^verbatim>\<open>defer\<close>, the later one first: \<^verbatim>\<open>cancelCtx()\<close>, then
  \<^verbatim>\<open>processingMessagesWg.Done()\<close>. Calling \<^verbatim>\<open>Unmarshal\<close> on a nil interface panics.
\<close>

definition processMessage ::
  "go_context \<Rightarrow> 'm \<Rightarrow> nat \<Rightarrow> delivery \<Rightarrow> resolution \<Rightarrow> error option \<Rightarrow> 'm StreamingSubscriber
     \<Rightarrow> 'm StreamingSubscriber" where
  "processMessage ctx m output sel1 sel2 ack s =
    (if closed s then s
     else
      (let s = emit processingMessagesWg_Add (s\<lparr>processingMessagesWg := processingMessagesWg s + 1\<rparr>);
           s = emit (Log_Trace ''Received message'') s;
           s = (case Unmarshaler (config s) of
                  None \<Rightarrow> raise nil_pointer_dereference s
                | Some unmarshal \<Rightarrow>
                   (case unmarshal m of
                      Inl err \<Rightarrow> emit (Log_Error ''Cannot unmarshal message'' err) s
                    | Inr msg \<Rightarrow>
                       (let c = message_context (fresh s);
                            s = emit (context_WithCancel ctx c) (s\<lparr>fresh := Suc (fresh s)\<rparr>);
                            msg = msg\<lparr>Context := Some c\<rparr>;
                            s = emit (Log_Trace ''Unmarshaled message'') s;
                            s = deliver msg output sel1 sel2 ack s
                        in emit (cancelCtx c) (s\<lparr>cancelled := cancelled s @ [c]\<rparr>))))
       in emit processingMessagesWg_Done (s\<lparr>processingMessagesWg := processingMessagesWg s - 1\<rparr>)))"

text \<open>The events a call added: those of the state after it, past those of the state before.\<close>

definition since :: "'m StreamingSubscriber \<Rightarrow> 'm StreamingSubscriber \<Rightarrow> event list" where
  "since s s' = drop (length (history s)) (history s')"

subsection \<open>The events of a delivery, as lists\<close>

definition resolution_events :: "resolution \<Rightarrow> error option \<Rightarrow> event list" where
  "resolution_events sel ack =
    (case sel of
       msg_Acked \<Rightarrow>
         m_Ack # (case ack of Some err \<Rightarrow> [Log_Error ''Cannot send ack'' err] | None \<Rightarrow> [])
           @ [Log_Trace ''Message Acked'']
     | msg_Nacked \<Rightarrow> [Log_Trace ''Message Nacked'']
     | AckWaitTimeout_elapsed \<Rightarrow> [Log_Trace ''Ack timeouted'']
     | closing_during_wait \<Rightarrow> [Log_Trace ''Closing, message discarded before ack''])"

definition deliver_events ::
  "Message \<Rightarrow> nat \<Rightarrow> bool \<Rightarrow> delivery \<Rightarrow> resolution \<Rightarrow> error option \<Rightarrow> event list" where
  "deliver_events msg output output_closed sel1 sel2 ack =
    (case sel1 of
       output_receives \<Rightarrow>
         if output_closed then []
         else [output_send output msg, Log_Trace ''Message sent to consumer'']
              @ resolution_events sel2 ack
     | closing_during_delivery \<Rightarrow> [Log_Trace ''Closing, message discarded''])"

subsection \<open>Runs of the whole subscriber\<close>

text \<open>
  What can happen to a subscriber, one thing at a time: a call of \<^verbatim>\<open>Subscribe\<close>, a
  statement of a watcher, the caller cancelling a context, the broker delivering a
  message, a call of \<^verbatim>\<open>Close\<close>. A run is a list of these.
\<close>

datatype 'm action =
    do_Subscribe "nat \<Rightarrow> error option" go_context string
  | do_watcher nat
  | do_cancel go_context
  | do_processMessage go_context 'm nat delivery resolution "error option"
  | do_Close "nat list" "error option"

fun exec :: "(nat \<Rightarrow> error option) \<Rightarrow> 'm action \<Rightarrow> 'm StreamingSubscriber \<Rightarrow> 'm StreamingSubscriber" where
  "exec sub_close (do_Subscribe broker ctx topic) s = fst (Subscribe broker ctx topic s)"
| "exec sub_close (do_watcher i) s = watcher_step sub_close i s"
| "exec sub_close (do_cancel ctx) s = cancel ctx s"
| "exec sub_close (do_processMessage ctx m output sel1 sel2 ack) s =
     processMessage ctx m output sel1 sel2 ack s"
| "exec sub_close (do_Close sched conn_close) s = fst (Close sub_close sched conn_close s)"

fun execs ::
  "(nat \<Rightarrow> error option) \<Rightarrow> 'm action list \<Rightarrow> 'm StreamingSubscriber \<Rightarrow> 'm StreamingSubscriber" where
  "execs sub_close [] s = s"
| "execs sub_close (a # as) s = execs sub_close as (exec sub_close a s)"

text \<open>The actions other than \<^verbatim>\<open>Close\<close> and the cancellation of the context \<open>ctx\<close>.\<close>

definition leaves_running :: "go_context \<Rightarrow> 'm action \<Rightarrow> bool" where
  "leaves_running ctx a =
    (case a of
       do_Close sched conn_close \<Rightarrow> False
     | do_cancel c \<Rightarrow> c \<noteq> ctx
     | _ \<Rightarrow> True)"

text \<open>
  Every subscription handle a watcher holds has been handed out: it is below the next
  unused number. A constructed subscriber has no watcher, and \<^verbatim>\<open>Subscribe\<close> gives each
  watcher the handle it just received.
\<close>

definition handles_allocated :: "'m StreamingSubscriber \<Rightarrow> bool" where
  "handles_allocated s = list_all (\<lambda>w. w_sub w < fresh s) (goroutines s)"

text \<open>
  How many calls of \<^verbatim>\<open>outputsWg.Done()\<close> the watchers can still get to: one for each
  output channel that is open and has a watcher that has not yet tried to close it, and
  one for each watcher that closed its channel and stands before its \<^verbatim>\<open>Done\<close>.
\<close>

definition before_close :: "watcher \<Rightarrow> bool" where
  "before_close w = (w_pc w = at_select \<or> w_pc w = at_sub_Close \<or> w_pc w = at_close_output)"

definition Done_to_come :: "watcher list \<Rightarrow> nat list \<Rightarrow> nat" where
  "Done_to_come ws chans =
    card (set (map w_output (filter before_close ws)) - set chans)
    + length (filter (\<lambda>w. w_pc w = at_outputsWg_Done) ws)"

definition pending_Done :: "'m StreamingSubscriber \<Rightarrow> nat" where
  "pending_Done s = Done_to_come (goroutines s) (closed_chans s)"

text \<open>
  From \<open>s\<close> to \<open>s'\<close> the counter of \<^verbatim>\<open>outputsWg\<close> lost no more than the number of \<^verbatim>\<open>Done\<close>
  calls still to come did.
\<close>

definition slack :: "'m StreamingSubscriber \<Rightarrow> 'm StreamingSubscriber \<Rightarrow> bool" where
  "slack s s' \<longleftrightarrow> outputsWg s + pending_Done s' \<le> outputsWg s' + pending_Done s"

text \<open>
  The workers holding the handles \<open>H\<close> wait at their \<^verbatim>\<open>select\<close> for the closing signal or
  the end of \<open>ctx\<close>, neither of which has come, and the handles are registered and open.
\<close>

definition workers_waiting :: "go_context \<Rightarrow> nat set \<Rightarrow> 'm StreamingSubscriber \<Rightarrow> bool" where
  "workers_waiting ctx H s \<longleftrightarrow>
     \<not> closing s \<and> ctx \<notin> set (cancelled s)
     \<and> list_all (\<lambda>w. w_sub w \<in> H \<longrightarrow> w_ctx w = ctx \<and> w_pc w = at_select) (goroutines s)
     \<and> H \<subseteq> set (live_subs s) \<and> H \<subseteq> set (subs s) \<and> (\<forall>h\<in>H. h < fresh s)"

subsection \<open>A concrete subscriber\<close>

text \<open>
  A broker whose messages are numbers: message 0 does not deserialize, every other one
  does. The configuration has a queue group, so any worker count validates.
\<close>

definition example_unmarshal :: "nat \<Rightarrow> error + Message" where
  "example_unmarshal m =
    (if m = 0 then Inl (errors_New ''bad payload'')
     else Inr \<lparr>UUID = ''id'', Payload = ''data'', Context = None\<rparr>)"

definition example_config :: "int \<Rightarrow> nat StreamingSubscriberConfig" where
  "example_config n =
    \<lparr>ClusterID = ''cluster'', ClientID = ''client'', QueueGroup = ''g'', DurableName = [],
     SubscribersCount = n, CloseTimeout = 0, AckWaitTimeout = 0, StanOptions = [],
     StanSubscriptionOptions = [], Unmarshaler = Some example_unmarshal\<rparr>"

definition example_subscriber :: "int \<Rightarrow> nat StreamingSubscriber" where
  "example_subscriber n =
    \<lparr>config = setDefaults (example_config n), subs = [], closed = False, closing = False,
     outputsWg = 0, processingMessagesWg = 0, goroutines = [], live_subs = [],
     closed_chans = [], cancelled = [], fresh = 0, panics = [],
     history = [stan_Connect ''cluster'' ''client'' []]\<rparr>"

text \<open>The same subscriber after one successful \<^verbatim>\<open>Subscribe\<close> with the caller's context 5.\<close>

definition example_subscribed :: "int \<Rightarrow> nat StreamingSubscriber" where
  "example_subscribed n = fst (Subscribe (\<lambda>i. None) (caller_context 5) ''orders'' (example_subscriber n))"

text \<open>A broker that refuses the subscribe call of iteration \<open>k\<close> and accepts the others.\<close>

definition refusing :: "nat \<Rightarrow> nat \<Rightarrow> error option" where
  "refusing k i = (if i = k then Some (errors_New ''refused'') else None)"

section \<open>Properties\<close>

subsection \<open>Configuration and constructor\<close>

lemma setDefaults_fields:
  "SubscribersCount (setDefaults c) = (if SubscribersCount c \<le> 0 then 1 else SubscribersCount c)"
  "CloseTimeout (setDefaults c) = (if CloseTimeout c \<le> 0 then 30 * time_Second else CloseTimeout c)"
  "AckWaitTimeout (setDefaults c) =
     (if AckWaitTimeout c \<le> 0 then 30 * time_Second else AckWaitTimeout c)"
  "StanSubscriptionOptions (setDefaults c) =
     StanSubscriptionOptions c
     @ [stan_SetManualAckMode,
        stan_AckWait (if AckWaitTimeout c \<le> 0 then 30 * time_Second else AckWaitTimeout c)]
     @ (if DurableName c = [] then [] else [stan_DurableName (DurableName c)])"
  "ClusterID (setDefaults c) = ClusterID c" "ClientID (setDefaults c) = ClientID c"
  "QueueGroup (setDefaults c) = QueueGroup c" "DurableName (setDefaults c) = DurableName c"
  "StanOptions (setDefaults c) = StanOptions c" "Unmarshaler (setDefaults c) = Unmarshaler c"
  unfolding setDefaults_def Let_def
  by (simp_all add: if_distrib [of SubscribersCount] if_distrib [of CloseTimeout]
        if_distrib [of AckWaitTimeout] if_distrib [of StanSubscriptionOptions]
        if_distrib [of ClusterID] if_distrib [of ClientID] if_distrib [of QueueGroup]
        if_distrib [of DurableName] if_distrib [of StanOptions] if_distrib [of Unmarshaler]
      cong: if_cong)

text \<open>
  Claim C8. For every configuration, \<^verbatim>\<open>setDefaults\<close> replaces a worker count that is
  unset (zero, or below) by 1 and a close timeout and an ack-wait timeout that are unset
  by 30 seconds, keeps them otherwise, and leaves the other fields as they are but for
  the subscription options: to those it appends the manual-ack option, the ack-wait
  option with the ack-wait timeout as it stands after defaulting, and, exactly when the
  durable name is not empty, the durable-name option.
\<close>

theorem setDefaults_fills_and_appends:
  "SubscribersCount (setDefaults c) = (if SubscribersCount c \<le> 0 then 1 else SubscribersCount c)
   \<and> CloseTimeout (setDefaults c) = (if CloseTimeout c \<le> 0 then 30 * time_Second else CloseTimeout c)
   \<and> AckWaitTimeout (setDefaults c) =
        (if AckWaitTimeout c \<le> 0 then 30 * time_Second else AckWaitTimeout c)
   \<and> StanSubscriptionOptions (setDefaults c) =
        StanSubscriptionOptions c
        @ [stan_SetManualAckMode, stan_AckWait (AckWaitTimeout (setDefaults c))]
        @ (if DurableName c = [] then [] else [stan_DurableName (DurableName c)])
   \<and> ClusterID (setDefaults c) = ClusterID c \<and> ClientID (setDefaults c) = ClientID c
   \<and> QueueGroup (setDefaults c) = QueueGroup c \<and> DurableName (setDefaults c) = DurableName c
   \<and> StanOptions (setDefaults c) = StanOptions c \<and> Unmarshaler (setDefaults c) = Unmarshaler c"
  by (simp add: setDefaults_fields)

theorem setDefaults_fills_and_appends_witness:
  "SubscribersCount (setDefaults (example_config 0)) = 1
   \<and> CloseTimeout (setDefaults (example_config 0)) = 30000000000
   \<and> AckWaitTimeout (setDefaults (example_config 0)) = 30000000000
   \<and> StanSubscriptionOptions (setDefaults (example_config 0)) =
        [stan_SetManualAckMode, stan_AckWait 30000000000]
   \<and> StanSubscriptionOptions (setDefaults ((example_config 4)
          \<lparr>DurableName := ''d'', AckWaitTimeout := 5,
           StanSubscriptionOptions := [stan_OtherSubscriptionOption ''MaxInflight'']\<rparr>)) =
        [stan_OtherSubscriptionOption ''MaxInflight'', stan_SetManualAckMode, stan_AckWait 5,
         stan_DurableName ''d'']"
  using setDefaults_fills_and_appends [of "example_config 0"]
    setDefaults_fills_and_appends [of "(example_config 4)
          \<lparr>DurableName := ''d'', AckWaitTimeout := 5,
           StanSubscriptionOptions := [stan_OtherSubscriptionOption ''MaxInflight'']\<rparr>"]
  by (simp add: example_config_def time_Second_def)

lemma Validate_setDefaults:
  "Validate (setDefaults c) = Validate c"
  by (simp add: Validate_def setDefaults_fields split: option.splits)

text \<open>
  Claim C7. \<^verbatim>\<open>Validate\<close> returns an error exactly when the \<^verbatim>\<open>Unmarshaler\<close> is nil or the
  worker count exceeds 1 with an empty queue group; the same holds after \<^verbatim>\<open>setDefaults\<close>,
  as the constructor calls it. When validation fails the constructor returns that error
  and has not called \<^verbatim>\<open>stan.Connect\<close>; when it passes, the connection attempt is the
  constructor's one event.
\<close>

theorem Validate_fails_exactly_when:
  "(Validate c \<noteq> None \<longleftrightarrow> Unmarshaler c = None \<or> (QueueGroup c = [] \<and> 1 < SubscribersCount c))
   \<and> (Validate (setDefaults c) \<noteq> None \<longleftrightarrow>
        Unmarshaler c = None \<or> (QueueGroup c = [] \<and> 1 < SubscribersCount c))
   \<and> (\<forall>err. Validate (setDefaults c) = Some err \<longrightarrow>
          NewStreamingSubscriber c connect = ([], Inl err))
   \<and> (Validate (setDefaults c) = None \<longrightarrow>
          fst (NewStreamingSubscriber c connect) =
            [stan_Connect (ClusterID c) (ClientID c) (StanOptions c)])"
proof -
  have a: "Validate c \<noteq> None \<longleftrightarrow> Unmarshaler c = None \<or> (QueueGroup c = [] \<and> 1 < SubscribersCount c)"
    by (simp add: Validate_def split: option.splits)
  have b: "\<forall>err. Validate (setDefaults c) = Some err \<longrightarrow>
          NewStreamingSubscriber c connect = ([], Inl err)"
    by (simp add: NewStreamingSubscriber_def Let_def)
  note ids = setDefaults_fields(5,6,9)
  have d: "Validate (setDefaults c) = None \<longrightarrow>
          fst (NewStreamingSubscriber c connect) =
            [stan_Connect (ClusterID c) (ClientID c) (StanOptions c)]"
    by (simp add: NewStreamingSubscriber_def Let_def ids split: option.splits)
  from a b d show ?thesis by (simp only: Validate_setDefaults)
qed

theorem Validate_fails_exactly_when_witness:
  "Validate ((example_config 2)\<lparr>QueueGroup := []\<rparr>) \<noteq> None
   \<and> Validate ((example_config 2)\<lparr>Unmarshaler := None\<rparr>) \<noteq> None
   \<and> Validate (example_config 2) = None
   \<and> Validate ((example_config 1)\<lparr>QueueGroup := []\<rparr>) = None
   \<and> fst (NewStreamingSubscriber ((example_config 2)\<lparr>QueueGroup := []\<rparr>) (\<lambda>cluster client opts. None)) = []
   \<and> fst (NewStreamingSubscriber (example_config 2) (\<lambda>cluster client opts. None)) =
        [stan_Connect ''cluster'' ''client'' []]"
  using Validate_fails_exactly_when [of "(example_config 2)\<lparr>QueueGroup := []\<rparr>" "\<lambda>cluster client opts. None"]
    Validate_fails_exactly_when [of "(example_config 2)\<lparr>Unmarshaler := None\<rparr>" "\<lambda>cluster client opts. None"]
    Validate_fails_exactly_when [of "example_config 2" "\<lambda>cluster client opts. None"]
    Validate_fails_exactly_when [of "(example_config 1)\<lparr>QueueGroup := []\<rparr>" "\<lambda>cluster client opts. None"]
  by (auto simp add: example_config_def)

subsection \<open>Reading the state through the helpers\<close>

lemma example_subscriber_constructed:
  "0 \<le> n \<Longrightarrow> NewStreamingSubscriber (example_config n) (\<lambda>cluster client opts. None) =
     ([stan_Connect ''cluster'' ''client'' []], Inr (example_subscriber n))"
  by (simp add: NewStreamingSubscriber_def example_subscriber_def Validate_def Let_def
        setDefaults_def example_config_def)

lemma history_emit [simp]: "history (emit e s) = history s @ [e]"
  by (simp add: emit_def)

lemma history_raise [simp]: "history (raise p s) = history s"
  by (simp add: raise_def)

lemma emit_fields [simp]:
  "config (emit e s) = config s" "subs (emit e s) = subs s" "closed (emit e s) = closed s"
  "closing (emit e s) = closing s" "outputsWg (emit e s) = outputsWg s"
  "processingMessagesWg (emit e s) = processingMessagesWg s"
  "goroutines (emit e s) = goroutines s" "live_subs (emit e s) = live_subs s"
  "closed_chans (emit e s) = closed_chans s" "cancelled (emit e s) = cancelled s"
  "fresh (emit e s) = fresh s" "panics (emit e s) = panics s"
  by (simp_all add: emit_def)

lemma raise_fields [simp]:
  "config (raise p s) = config s" "subs (raise p s) = subs s" "closed (raise p s) = closed s"
  "closing (raise p s) = closing s" "outputsWg (raise p s) = outputsWg s"
  "processingMessagesWg (raise p s) = processingMessagesWg s"
  "goroutines (raise p s) = goroutines s" "live_subs (raise p s) = live_subs s"
  "closed_chans (raise p s) = closed_chans s" "cancelled (raise p s) = cancelled s"
  "fresh (raise p s) = fresh s" "panics (raise p s) = panics s @ [p]"
  by (simp_all add: raise_def)

lemmas example_defs =
  example_subscriber_def example_config_def example_unmarshal_def setDefaults_def Let_def

lemmas delivery_defs =
  processMessage_def deliver_def await_resolution_def emit_def raise_def since_def

subsection \<open>The delivery callback\<close>

lemma since_append: "history s' = history s @ evs \<Longrightarrow> since s s' = evs"
  by (simp add: since_def)

lemma since_same [simp]: "since s s = []"
  by (simp add: since_def)

lemma history_await_resolution:
  "history (await_resolution sel ack s) = history s @ resolution_events sel ack"
  by (simp add: await_resolution_def resolution_events_def Let_def
           split: resolution.splits option.splits)

lemma history_deliver:
  "history (deliver msg output sel1 sel2 ack s) =
   history s @ deliver_events msg output (output \<in> set (closed_chans s)) sel1 sel2 ack"
  by (simp add: deliver_def deliver_events_def history_await_resolution split: delivery.splits)

lemma cancelled_await_resolution [simp]: "cancelled (await_resolution sel ack s) = cancelled s"
  by (simp add: await_resolution_def Let_def split: resolution.splits option.splits)

lemma cancelled_deliver [simp]: "cancelled (deliver msg output sel1 sel2 ack s) = cancelled s"
  by (simp add: deliver_def split: delivery.splits)

lemma since_processMessage_unmarshaled:
  assumes "\<not> closed s" "Unmarshaler (config s) = Some u" "u m = Inr msg"
  shows "since s (processMessage ctx m output sel1 sel2 ack s) =
         [processingMessagesWg_Add, Log_Trace ''Received message'',
          context_WithCancel ctx (message_context (fresh s)), Log_Trace ''Unmarshaled message'']
         @ deliver_events (msg\<lparr>Context := Some (message_context (fresh s))\<rparr>) output
             (output \<in> set (closed_chans s)) sel1 sel2 ack
         @ [cancelCtx (message_context (fresh s)), processingMessagesWg_Done]"
  using assms
  by (intro since_append) (simp add: processMessage_def Let_def history_deliver)

lemma since_processMessage_failed:
  assumes "\<not> closed s" "Unmarshaler (config s) = Some u" "u m = Inl err"
  shows "since s (processMessage ctx m output sel1 sel2 ack s) =
         [processingMessagesWg_Add, Log_Trace ''Received message'',
          Log_Error ''Cannot unmarshal message'' err, processingMessagesWg_Done]"
  using assms
  by (intro since_append) (simp add: processMessage_def Let_def)

lemma since_processMessage_nil:
  assumes "\<not> closed s" "Unmarshaler (config s) = None"
  shows "since s (processMessage ctx m output sel1 sel2 ack s) =
         [processingMessagesWg_Add, Log_Trace ''Received message'', processingMessagesWg_Done]"
  using assms
  by (intro since_append) (simp add: processMessage_def Let_def)

lemma since_processMessage_closed:
  "closed s \<Longrightarrow> since s (processMessage ctx m output sel1 sel2 ack s) = []"
  by (simp add: processMessage_def)

lemma count_resolution_events:
  "count_list (resolution_events sel ack) m_Ack = (if sel = msg_Acked then 1 else 0)"
  by (simp add: resolution_events_def split: resolution.splits option.splits)

lemma send_resolution_events: "output_send out msg \<notin> set (resolution_events sel ack)"
  by (simp add: resolution_events_def split: resolution.splits option.splits)

lemma count_deliver_events:
  "count_list (deliver_events msg output c sel1 sel2 ack) m_Ack =
     (if sel1 = output_receives \<and> \<not> c \<and> sel2 = msg_Acked then 1 else 0)"
  by (simp add: deliver_events_def count_resolution_events split: delivery.splits)

lemma send_deliver_events:
  "output_send out msg' \<in> set (deliver_events msg output c sel1 sel2 ack) \<longleftrightarrow>
     sel1 = output_receives \<and> \<not> c \<and> out = output \<and> msg' = msg"
  by (auto simp add: deliver_events_def send_resolution_events split: delivery.splits)

text \<open>
  Claim C2. A message counts as delivered when the callback sent it on the output
  channel. The callback calls the broker message's \<^verbatim>\<open>Ack\<close> once when the message was
  delivered and the consumer's ack is what ends the wait, and not at all otherwise: on a
  nack, on the ack-wait timeout, on the closing signal, and when nothing was delivered.
\<close>

theorem processMessage_acks:
  "count_list (since s (processMessage ctx m output sel1 sel2 ack s)) m_Ack =
     (if (\<exists>msg. output_send output msg \<in> set (since s (processMessage ctx m output sel1 sel2 ack s)))
         \<and> sel2 = msg_Acked
      then 1 else 0)"
proof (cases "closed s")
  case True
  then show ?thesis by (simp add: since_processMessage_closed)
next
  case running: False
  show ?thesis
  proof (cases "Unmarshaler (config s)")
    case None
    with running show ?thesis by (simp add: since_processMessage_nil)
  next
    case (Some u)
    show ?thesis
    proof (cases "u m")
      case (Inl err)
      with running Some show ?thesis by (simp add: since_processMessage_failed)
    next
      case (Inr msg)
      with running Some show ?thesis
        by (simp add: since_processMessage_unmarshaled count_deliver_events send_deliver_events)
    qed
  qed
qed


theorem processMessage_acks_witness:
  "count_list (since (example_subscriber 1)
      (processMessage (caller_context 7) 1 3 output_receives msg_Acked None (example_subscriber 1))) m_Ack = 1
   \<and> count_list (since (example_subscriber 1)
      (processMessage (caller_context 7) 1 3 output_receives msg_Nacked None (example_subscriber 1))) m_Ack = 0"
  using processMessage_acks [of "example_subscriber 1" "caller_context 7" 1 3 output_receives msg_Acked None]
    processMessage_acks [of "example_subscriber 1" "caller_context 7" 1 3 output_receives msg_Nacked None]
  by (simp add: example_defs delivery_defs)

text \<open>
  Claim C5. When the deserialization of a broker message fails, the callback sends
  nothing on the output channel and never calls \<^verbatim>\<open>Ack\<close>; unless the subscriber is
  closed already (then the callback returns before deserializing), all it does is count
  itself in and out of \<^verbatim>\<open>processingMessagesWg\<close> and log the failure.
\<close>

theorem processMessage_unmarshal_failure:
  assumes "Unmarshaler (config s) = Some u" and "u m = Inl err"
  shows "(\<forall>out msg. output_send out msg \<notin> set (since s (processMessage ctx m output sel1 sel2 ack s)))
    \<and> count_list (since s (processMessage ctx m output sel1 sel2 ack s)) m_Ack = 0
    \<and> (\<not> closed s \<longrightarrow>
         since s (processMessage ctx m output sel1 sel2 ack s) =
           [processingMessagesWg_Add, Log_Trace ''Received message'',
            Log_Error ''Cannot unmarshal message'' err, processingMessagesWg_Done])"
  using assms
  by (cases "closed s") (simp_all add: since_processMessage_closed since_processMessage_failed)

theorem processMessage_unmarshal_failure_witness:
  "Unmarshaler (config (example_subscriber 1)) = Some example_unmarshal
   \<and> example_unmarshal 0 = Inl (errors_New ''bad payload'')
   \<and> \<not> closed (example_subscriber 1)
   \<and> since (example_subscriber 1)
        (processMessage (caller_context 7) 0 3 output_receives msg_Acked None (example_subscriber 1)) =
       [processingMessagesWg_Add, Log_Trace ''Received message'',
        Log_Error ''Cannot unmarshal message'' (errors_New ''bad payload''),
        processingMessagesWg_Done]"
proof -
  have u: "Unmarshaler (config (example_subscriber 1)) = Some example_unmarshal"
    by (simp add: example_defs)
  have f: "example_unmarshal 0 = Inl (errors_New ''bad payload'')"
    by (simp add: example_unmarshal_def)
  have c: "\<not> closed (example_subscriber 1)"
    by (simp add: example_subscriber_def)
  from processMessage_unmarshal_failure [OF u f, of "caller_context 7" 3 output_receives msg_Acked None] u f c
  show ?thesis by simp
qed

text \<open>
  Claim C6. For a message that deserializes, the context made for it by
  \<^verbatim>\<open>context.WithCancel\<close> is cancelled when the callback returns, whatever the two selects
  chose and whatever \<^verbatim>\<open>Ack\<close> returned: \<^verbatim>\<open>cancelCtx\<close> is called once, as the last step but
  the \<^verbatim>\<open>Done\<close> of the wait group, and a message that reached the output channel carries
  that very context.
\<close>

theorem processMessage_cancels_scope:
  assumes "\<not> closed s" and "Unmarshaler (config s) = Some u" and "u m = Inr msg"
  shows "message_context (fresh s) \<in> set (cancelled (processMessage ctx m output sel1 sel2 ack s))
    \<and> (\<exists>evs. since s (processMessage ctx m output sel1 sel2 ack s) =
          [processingMessagesWg_Add, Log_Trace ''Received message'',
           context_WithCancel ctx (message_context (fresh s))] @ evs @ [cancelCtx (message_context (fresh s)), processingMessagesWg_Done]
          \<and> cancelCtx (message_context (fresh s)) \<notin> set evs)
    \<and> (\<forall>out msg'. output_send out msg' \<in> set (since s (processMessage ctx m output sel1 sel2 ack s))
          \<longrightarrow> Context msg' = Some (message_context (fresh s)))"
proof -
  let ?d = "deliver_events (msg\<lparr>Context := Some (message_context (fresh s))\<rparr>) output
              (output \<in> set (closed_chans s)) sel1 sel2 ack"
  have no_cancel: "cancelCtx c \<notin> set ?d" for c
    by (simp add: deliver_events_def resolution_events_def
          split: delivery.splits resolution.splits option.splits)
  have "message_context (fresh s) \<in> set (cancelled (processMessage ctx m output sel1 sel2 ack s))"
    using assms by (simp add: processMessage_def Let_def)
  moreover have "since s (processMessage ctx m output sel1 sel2 ack s) =
      [processingMessagesWg_Add, Log_Trace ''Received message'', context_WithCancel ctx (message_context (fresh s))]
      @ (Log_Trace ''Unmarshaled message'' # ?d) @ [cancelCtx (message_context (fresh s)), processingMessagesWg_Done]"
    using assms by (simp add: since_processMessage_unmarshaled)
  moreover have "cancelCtx (message_context (fresh s)) \<notin> set (Log_Trace ''Unmarshaled message'' # ?d)"
    using no_cancel by simp
  moreover have "\<forall>out msg'. output_send out msg' \<in> set (since s (processMessage ctx m output sel1 sel2 ack s))
          \<longrightarrow> Context msg' = Some (message_context (fresh s))"
    using assms by (auto simp add: since_processMessage_unmarshaled send_deliver_events)
  ultimately show ?thesis by blast
qed

theorem processMessage_cancels_scope_witness:
  "\<not> closed (example_subscriber 1)
   \<and> Unmarshaler (config (example_subscriber 1)) = Some example_unmarshal
   \<and> example_unmarshal 1 = Inr \<lparr>UUID = ''id'', Payload = ''data'', Context = None\<rparr>
   \<and> fresh (example_subscriber 1) = 0
   \<and> message_context 0 \<in> set (cancelled (processMessage (caller_context 7) 1 3 output_receives AckWaitTimeout_elapsed None
                            (example_subscriber 1)))"
proof -
  have c: "\<not> closed (example_subscriber 1)"
    by (simp add: example_subscriber_def)
  have u: "Unmarshaler (config (example_subscriber 1)) = Some example_unmarshal"
    by (simp add: example_defs)
  have f: "example_unmarshal 1 = Inr \<lparr>UUID = ''id'', Payload = ''data'', Context = None\<rparr>"
    by (simp add: example_unmarshal_def)
  have n: "fresh (example_subscriber 1) = 0"
    by (simp add: example_subscriber_def)
  from processMessage_cancels_scope [OF c u f, of "caller_context 7" 3 output_receives AckWaitTimeout_elapsed None]
    c u f n
  show ?thesis by simp
qed

subsection \<open>Watchers and Close\<close>

lemma set_pc_fields [simp]:
  "config (set_pc i pc s) = config s" "subs (set_pc i pc s) = subs s"
  "closed (set_pc i pc s) = closed s" "closing (set_pc i pc s) = closing s"
  "outputsWg (set_pc i pc s) = outputsWg s"
  "processingMessagesWg (set_pc i pc s) = processingMessagesWg s"
  "live_subs (set_pc i pc s) = live_subs s" "closed_chans (set_pc i pc s) = closed_chans s"
  "cancelled (set_pc i pc s) = cancelled s" "fresh (set_pc i pc s) = fresh s"
  "panics (set_pc i pc s) = panics s" "history (set_pc i pc s) = history s"
  "goroutines (set_pc i pc s) = (goroutines s)[i := (goroutines s ! i)\<lparr>w_pc := pc\<rparr>]"
  by (simp_all add: set_pc_def)

lemma watcher_step_frame [simp]:
  "config (watcher_step sc i s) = config s" "subs (watcher_step sc i s) = subs s"
  "closed (watcher_step sc i s) = closed s" "closing (watcher_step sc i s) = closing s"
  "processingMessagesWg (watcher_step sc i s) = processingMessagesWg s"
  "cancelled (watcher_step sc i s) = cancelled s" "fresh (watcher_step sc i s) = fresh s"
  by (simp_all add: watcher_step_def Let_def split: watcher_pc.splits option.splits)

lemma watcher_step_history:
  "\<exists>evs. history (watcher_step sc i s) = history s @ evs \<and> list_all watcher_event evs"
  by (simp add: watcher_step_def Let_def watcher_event_def split: watcher_pc.splits option.splits)

lemma WaitGroupTimeout_frame [simp]:
  "config (fst (WaitGroupTimeout sc sched s)) = config s"
  "subs (fst (WaitGroupTimeout sc sched s)) = subs s"
  "closed (fst (WaitGroupTimeout sc sched s)) = closed s"
  "closing (fst (WaitGroupTimeout sc sched s)) = closing s"
  "processingMessagesWg (fst (WaitGroupTimeout sc sched s)) = processingMessagesWg s"
  "cancelled (fst (WaitGroupTimeout sc sched s)) = cancelled s"
  "fresh (fst (WaitGroupTimeout sc sched s)) = fresh s"
  by (induction sched arbitrary: s; simp)+

lemma WaitGroupTimeout_history:
  "\<exists>evs. history (fst (WaitGroupTimeout sc sched s)) = history s @ evs \<and> list_all watcher_event evs"
proof (induction sched arbitrary: s)
  case Nil
  then show ?case by simp
next
  case (Cons i sched)
  show ?case
  proof (cases "outputsWg s = 0")
    case True
    then show ?thesis by simp
  next
    case False
    obtain a where a: "history (watcher_step sc i s) = history s @ a" "list_all watcher_event a"
      using watcher_step_history by blast
    obtain b where b: "history (fst (WaitGroupTimeout sc sched (watcher_step sc i s))) =
        history (watcher_step sc i s) @ b" "list_all watcher_event b"
      using Cons.IH by blast
    from False a b have "history (fst (WaitGroupTimeout sc (i # sched) s)) = history s @ (a @ b)
        \<and> list_all watcher_event (a @ b)"
      by simp
    then show ?thesis by blast
  qed
qed

lemma watcher_event_count:
  "list_all watcher_event evs \<Longrightarrow> \<not> watcher_event e \<Longrightarrow> count_list evs e = 0"
  by (induction evs) auto

lemma Close_closed: "closed s \<Longrightarrow> Close sc sched cc s = (s, Inr None)"
  by (simp add: Close_def)

lemma Close_open:
  assumes "\<not> closed s" and "\<not> closing s"
  shows "\<exists>W timeouted.
      since s (fst (Close sc sched cc s)) =
        [closed_set, Log_Debug ''Closing subscriber'', close_closing] @ W @
        [WaitGroupTimeout_returned (CloseTimeout (config s)) timeouted, conn_Close,
         Log_Info ''StreamingSubscriber closed'']
      \<and> list_all watcher_event W"
    and "closed (fst (Close sc sched cc s))" and "closing (fst (Close sc sched cc s))"
    and "snd (Close sc sched cc s) =
          Inr (case cc of None \<Rightarrow> None | Some err \<Rightarrow> Some (errors_Wrap err ''cannot close conn''))"
proof -
  let ?s1 = "emit close_closing
      ((emit (Log_Debug ''Closing subscriber'') (emit closed_set (s\<lparr>closed := True\<rparr>)))\<lparr>closing := True\<rparr>)"
  let ?w = "WaitGroupTimeout sc sched ?s1"
  obtain W where W: "history (fst ?w) = history ?s1 @ W" "list_all watcher_event W"
    using WaitGroupTimeout_history by blast
  have c: "Close sc sched cc s =
      (emit (Log_Info ''StreamingSubscriber closed'')
         (emit conn_Close
            (emit (WaitGroupTimeout_returned (CloseTimeout (config s)) (snd ?w)) (fst ?w))),
       Inr (case cc of None \<Rightarrow> None | Some err \<Rightarrow> Some (errors_Wrap err ''cannot close conn'')))"
    using assms by (simp add: Close_def Let_def case_prod_beta split: option.splits)
  have "since s (fst (Close sc sched cc s)) =
        [closed_set, Log_Debug ''Closing subscriber'', close_closing] @ W @
        [WaitGroupTimeout_returned (CloseTimeout (config s)) (snd ?w), conn_Close,
         Log_Info ''StreamingSubscriber closed'']"
    by (rule since_append) (simp add: c W)
  with W show "\<exists>W timeouted.
      since s (fst (Close sc sched cc s)) =
        [closed_set, Log_Debug ''Closing subscriber'', close_closing] @ W @
        [WaitGroupTimeout_returned (CloseTimeout (config s)) timeouted, conn_Close,
         Log_Info ''StreamingSubscriber closed'']
      \<and> list_all watcher_event W"
    by blast
  show "closed (fst (Close sc sched cc s))" by (simp add: c)
  show "closing (fst (Close sc sched cc s))" by (simp add: c)
  show "snd (Close sc sched cc s) =
          Inr (case cc of None \<Rightarrow> None | Some err \<Rightarrow> Some (errors_Wrap err ''cannot close conn''))"
    by (simp add: c)
qed

lemma Close_calls_closed:
  "closed s \<Longrightarrow> Close_calls sc calls s = (s, replicate (length calls) (Inr None))"
  by (induction calls) (auto simp add: Close_closed)


lemmas subscribe_defs =
  example_subscribed_def Subscribe_def subscribe_def emit_def raise_def since_def

lemma example_subscribed_1:
  "example_subscribed 1 =
    \<lparr>config = setDefaults (example_config 1), subs = [1], closed = False, closing = False,
     outputsWg = 1, processingMessagesWg = 0,
     goroutines = [\<lparr>w_sub = 1, w_output = 0, w_ctx = caller_context 5, w_pc = at_select\<rparr>], live_subs = [1],
     closed_chans = [], cancelled = [], fresh = 2, panics = [],
     history = [stan_Connect ''cluster'' ''client'' [], outputsWg_Add,
                Log_Debug ''Starting subscriber'',
                conn_QueueSubscribe ''orders'' ''g'' [stan_SetManualAckMode, stan_AckWait 30000000000],
                go_watcher 1]\<rparr>"
  by (simp add: subscribe_defs example_defs time_Second_def)

text \<open>
  Claim C4. On a subscriber that is not closed, \<^verbatim>\<open>Close\<close> does, in this order: set the
  closed flag, log, close the closing channel (once), wait for the watchers with the
  configured close timeout as the bound (only watcher goroutines act meanwhile), close
  the connection, log. Whether the bound elapsed has no part in the result: it is
  success when the connection closed cleanly and otherwise that failure, wrapped.
\<close>

theorem Close_first_call:
  assumes "\<not> closed s" and "\<not> closing s"
  shows "(\<exists>W timeouted.
      since s (fst (Close sc sched cc s)) =
        [closed_set, Log_Debug ''Closing subscriber'', close_closing] @ W @
        [WaitGroupTimeout_returned (CloseTimeout (config s)) timeouted, conn_Close,
         Log_Info ''StreamingSubscriber closed'']
      \<and> list_all watcher_event W)
    \<and> count_list (since s (fst (Close sc sched cc s))) close_closing = 1
    \<and> closed (fst (Close sc sched cc s)) \<and> closing (fst (Close sc sched cc s))
    \<and> snd (Close sc sched cc s) =
          Inr (case cc of None \<Rightarrow> None | Some err \<Rightarrow> Some (errors_Wrap err ''cannot close conn''))"
proof -
  obtain W timeouted where W: "since s (fst (Close sc sched cc s)) =
        [closed_set, Log_Debug ''Closing subscriber'', close_closing] @ W @
        [WaitGroupTimeout_returned (CloseTimeout (config s)) timeouted, conn_Close,
         Log_Info ''StreamingSubscriber closed'']" "list_all watcher_event W"
    using Close_open(1) [OF assms] by blast
  have "count_list W close_closing = 0"
    using W(2) by (rule watcher_event_count) (simp add: watcher_event_def)
  then have "count_list (since s (fst (Close sc sched cc s))) close_closing = 1"
    by (simp add: W(1))
  with W Close_open(2,3,4) [OF assms] show ?thesis by blast
qed

theorem Close_first_call_witness:
  "\<not> closed (example_subscribed 1) \<and> \<not> closing (example_subscribed 1)
   \<and> since (example_subscribed 1) (fst (Close (\<lambda>h. None) [] None (example_subscribed 1))) =
       [closed_set, Log_Debug ''Closing subscriber'', close_closing,
        WaitGroupTimeout_returned 30000000000 True, conn_Close,
        Log_Info ''StreamingSubscriber closed'']
   \<and> snd (Close (\<lambda>h. None) [] None (example_subscribed 1)) = Inr None
   \<and> snd (Close (\<lambda>h. None) [0, 0, 0, 0] (Some (errors_New ''broken pipe'')) (example_subscribed 1)) =
       Inr (Some (errors_Wrap (errors_New ''broken pipe'') ''cannot close conn''))"
proof -
  have a: "\<not> closed (example_subscribed 1)" and b: "\<not> closing (example_subscribed 1)"
    by (simp_all add: example_subscribed_1)
  have c: "since (example_subscribed 1) (fst (Close (\<lambda>h. None) [] None (example_subscribed 1))) =
       [closed_set, Log_Debug ''Closing subscriber'', close_closing,
        WaitGroupTimeout_returned 30000000000 True, conn_Close,
        Log_Info ''StreamingSubscriber closed'']"
    by (simp add: example_subscribed_1 Close_def since_def emit_def example_defs time_Second_def)
  from Close_first_call [OF a b, of "\<lambda>h. None" "[]" None]
    Close_first_call [OF a b, of "\<lambda>h. None" "[0, 0, 0, 0]" "Some (errors_New ''broken pipe'')"]
    a b c
  show ?thesis by simp
qed

text \<open>
  Claim C3. \<^verbatim>\<open>Close\<close> on a closed subscriber changes nothing and returns success. So
  after a first call on a subscriber that is not closed, any number of further calls
  return success and leave the state as the first call left it, and over all the calls
  the connection's \<^verbatim>\<open>Close\<close> is called once.
\<close>

theorem Close_idempotent:
  "(closed s \<longrightarrow> Close sc sched cc s = (s, Inr None))
   \<and> (\<not> closed s \<and> \<not> closing s \<longrightarrow>
        Close_calls sc ((sched, cc) # calls) s =
          (fst (Close sc sched cc s),
           snd (Close sc sched cc s) # replicate (length calls) (Inr None))
        \<and> count_list (since s (fst (Close_calls sc ((sched, cc) # calls) s))) conn_Close = 1)"
proof (intro conjI impI)
  assume "closed s"
  then show "Close sc sched cc s = (s, Inr None)" by (rule Close_closed)
next
  assume open_s: "\<not> closed s \<and> \<not> closing s"
  then have "closed (fst (Close sc sched cc s))"
    using Close_open(2) by blast
  then show calls: "Close_calls sc ((sched, cc) # calls) s =
          (fst (Close sc sched cc s),
           snd (Close sc sched cc s) # replicate (length calls) (Inr None))"
    by (simp add: Close_calls_closed case_prod_beta)
  obtain W timeouted where W: "since s (fst (Close sc sched cc s)) =
        [closed_set, Log_Debug ''Closing subscriber'', close_closing] @ W @
        [WaitGroupTimeout_returned (CloseTimeout (config s)) timeouted, conn_Close,
         Log_Info ''StreamingSubscriber closed'']" "list_all watcher_event W"
    using Close_open(1) open_s by blast
  have "count_list W conn_Close = 0"
    using W(2) by (rule watcher_event_count) (simp add: watcher_event_def)
  then show "count_list (since s (fst (Close_calls sc ((sched, cc) # calls) s))) conn_Close = 1"
    unfolding calls by (simp add: W(1))
qed

theorem Close_idempotent_witness:
  "\<not> closed (example_subscribed 1) \<and> \<not> closing (example_subscribed 1)
   \<and> snd (Close_calls (\<lambda>h. None) [([0, 0, 0, 0], None), ([], None), ([], Some (errors_New ''gone''))]
            (example_subscribed 1)) = [Inr None, Inr None, Inr None]
   \<and> count_list (since (example_subscribed 1)
        (fst (Close_calls (\<lambda>h. None) [([0, 0, 0, 0], None), ([], None), ([], Some (errors_New ''gone''))]
               (example_subscribed 1)))) conn_Close = 1"
proof -
  have a: "\<not> closed (example_subscribed 1)" and b: "\<not> closing (example_subscribed 1)"
    by (simp_all add: example_subscribed_1)
  have r: "snd (Close (\<lambda>h. None) [0, 0, 0, 0] None (example_subscribed 1)) = Inr None"
    using Close_open(4) [OF a b, of "\<lambda>h. None" "[0, 0, 0, 0]" None] by simp
  note calls = Close_idempotent [of "example_subscribed 1" "\<lambda>h. None" "[0, 0, 0, 0]" None
      "[([], None), ([], Some (errors_New ''gone''))]"]
  from calls a b have "snd (Close_calls (\<lambda>h. None)
      [([0, 0, 0, 0], None), ([], None), ([], Some (errors_New ''gone''))] (example_subscribed 1)) =
      [snd (Close (\<lambda>h. None) [0, 0, 0, 0] None (example_subscribed 1)), Inr None, Inr None]"
    by (simp del: Close_calls.simps)
  with calls a b r show ?thesis by metis
qed

subsection \<open>Subscribe\<close>

lemma Subscribe_loop_started:
  "broker i = None \<Longrightarrow>
   Subscribe_loop broker ctx topic output i (Suc n) s =
     Subscribe_loop broker ctx topic output (Suc i) n (started ctx topic output s)"
  by (simp add: subscribe_def started_def subscribe_event_def emit_def Let_def)

lemma Subscribe_loop_refused:
  "broker i = Some err \<Longrightarrow>
   Subscribe_loop broker ctx topic output i (Suc n) s =
     (emit (subscribe_event topic (config s)) (emit (Log_Debug ''Starting subscriber'') s),
      Some (errors_Wrap err ''cannot subscribe''))"
  by (simp add: subscribe_def subscribe_event_def Let_def)

lemma started_fields [simp]:
  "config (started ctx topic output s) = config s"
  "closed (started ctx topic output s) = closed s"
  "closing (started ctx topic output s) = closing s"
  "outputsWg (started ctx topic output s) = outputsWg s"
  "processingMessagesWg (started ctx topic output s) = processingMessagesWg s"
  "closed_chans (started ctx topic output s) = closed_chans s"
  "cancelled (started ctx topic output s) = cancelled s"
  "panics (started ctx topic output s) = panics s"
  "fresh (started ctx topic output s) = Suc (fresh s)"
  "subs (started ctx topic output s) = subs s @ [fresh s]"
  "live_subs (started ctx topic output s) = live_subs s @ [fresh s]"
  "goroutines (started ctx topic output s) =
     goroutines s @ [\<lparr>w_sub = fresh s, w_output = output, w_ctx = ctx, w_pc = at_select\<rparr>]"
  "history (started ctx topic output s) =
     history s @ [Log_Debug ''Starting subscriber'', subscribe_event topic (config s),
                  go_watcher (fresh s)]"
  by (simp_all add: started_def)

lemma Subscribe_loop_fails:
  assumes "k < n" and "broker (i + k) = Some err" and "\<forall>j<k. broker (i + j) = None"
  shows "Subscribe_loop broker ctx topic output i n s =
     (emit (subscribe_event topic (config s))
        (emit (Log_Debug ''Starting subscriber'') ((started ctx topic output ^^ k) s)),
      Some (errors_Wrap err ''cannot subscribe''))"
  using assms
proof (induction k arbitrary: i n s)
  case 0
  then obtain n' where "n = Suc n'" by (cases n) auto
  with 0 show ?case by (simp add: Subscribe_loop_refused del: Subscribe_loop.simps)
next
  case (Suc k)
  then obtain n' where n: "n = Suc n'" "k < n'" by (cases n) auto
  from Suc.prems have b: "broker i = None" by auto
  from Suc.prems have c: "broker (Suc i + k) = Some err" by simp
  from Suc.prems have d: "\<forall>j<k. broker (Suc i + j) = None" by auto
  show ?case
    unfolding n Subscribe_loop_started [of broker i, OF b]
    by (simp add: Suc.IH [OF n(2) c d] funpow_swap1)
qed

lemma Subscribe_loop_succeeds:
  assumes "\<forall>j<n. broker (i + j) = None"
  shows "Subscribe_loop broker ctx topic output i n s = ((started ctx topic output ^^ n) s, None)"
  using assms
proof (induction n arbitrary: i s)
  case 0
  show ?case by simp
next
  case (Suc n)
  from Suc.prems have b: "broker i = None" by auto
  from Suc.prems have d: "\<forall>j<n. broker (Suc i + j) = None" by auto
  show ?case
    unfolding Subscribe_loop_started [of broker i, OF b]
    by (simp add: Suc.IH [OF d] funpow_swap1)
qed

lemma started_funpow_frame [simp]:
  "config ((started ctx topic output ^^ k) s) = config s"
  "closed ((started ctx topic output ^^ k) s) = closed s"
  "closing ((started ctx topic output ^^ k) s) = closing s"
  "outputsWg ((started ctx topic output ^^ k) s) = outputsWg s"
  "processingMessagesWg ((started ctx topic output ^^ k) s) = processingMessagesWg s"
  "closed_chans ((started ctx topic output ^^ k) s) = closed_chans s"
  "cancelled ((started ctx topic output ^^ k) s) = cancelled s"
  "panics ((started ctx topic output ^^ k) s) = panics s"
  "fresh ((started ctx topic output ^^ k) s) = fresh s + k"
  by (induction k; simp)+

lemma started_funpow_lists:
  "subs ((started ctx topic output ^^ k) s) = subs s @ [fresh s..<fresh s + k]"
  "live_subs ((started ctx topic output ^^ k) s) = live_subs s @ [fresh s..<fresh s + k]"
  "goroutines ((started ctx topic output ^^ k) s) =
     goroutines s @
     map (\<lambda>h. \<lparr>w_sub = h, w_output = output, w_ctx = ctx, w_pc = at_select\<rparr>)
       [fresh s..<fresh s + k]"
  by (induction k; simp)+

lemma started_funpow_history:
  "\<exists>evs. history ((started ctx topic output ^^ k) s) = history s @ evs
     \<and> count_list evs outputsWg_Add = 0 \<and> (\<forall>h. sub_Close h \<notin> set evs)"
proof (induction k)
  case 0
  show ?case by simp
next
  case (Suc k)
  then obtain evs where "history ((started ctx topic output ^^ k) s) = history s @ evs"
    "count_list evs outputsWg_Add = 0" "\<forall>h. sub_Close h \<notin> set evs" by blast
  then have "history ((started ctx topic output ^^ Suc k) s) =
      history s @ (evs @ [Log_Debug ''Starting subscriber'', subscribe_event topic (config s),
          go_watcher (fresh s + k)])
    \<and> count_list (evs @ [Log_Debug ''Starting subscriber'', subscribe_event topic (config s),
          go_watcher (fresh s + k)]) outputsWg_Add = 0
    \<and> (\<forall>h. sub_Close h \<notin> set (evs @ [Log_Debug ''Starting subscriber'',
          subscribe_event topic (config s), go_watcher (fresh s + k)]))"
    by (simp add: subscribe_event_def)
  then show ?case by blast
qed

lemma entered_fields [simp]:
  "config (entered s) = config s" "subs (entered s) = subs s" "closed (entered s) = closed s"
  "closing (entered s) = closing s" "outputsWg (entered s) = Suc (outputsWg s)"
  "processingMessagesWg (entered s) = processingMessagesWg s"
  "goroutines (entered s) = goroutines s" "live_subs (entered s) = live_subs s"
  "closed_chans (entered s) = closed_chans s" "cancelled (entered s) = cancelled s"
  "fresh (entered s) = Suc (fresh s)" "panics (entered s) = panics s"
  "history (entered s) = history s @ [outputsWg_Add]"
  by (simp_all add: entered_def)

lemma Subscribe_entered:
  "Subscribe broker ctx topic s =
    (case Subscribe_loop broker ctx topic (fresh s) 0 (nat (SubscribersCount (config s))) (entered s) of
       (s', Some err) \<Rightarrow> (s', Inl err)
     | (s', None) \<Rightarrow> (s', Inr (fresh s)))"
  by (simp add: Subscribe_def entered_def Let_def emit_def)

lemma Subscribe_fails:
  assumes "k < nat (SubscribersCount (config s))" and "broker k = Some err"
    and "\<forall>j<k. broker j = None"
  shows "Subscribe broker ctx topic s =
     (emit (subscribe_event topic (config s))
        (emit (Log_Debug ''Starting subscriber'') ((started ctx topic (fresh s) ^^ k) (entered s))),
      Inl (errors_Wrap err ''cannot subscribe''))"
  using assms by (simp add: Subscribe_entered Subscribe_loop_fails [where k = k and err = err])

lemma Subscribe_succeeds:
  assumes "\<forall>j<nat (SubscribersCount (config s)). broker j = None"
  shows "Subscribe broker ctx topic s =
     ((started ctx topic (fresh s) ^^ nat (SubscribersCount (config s))) (entered s),
      Inr (fresh s))"
  using assms by (simp add: Subscribe_entered Subscribe_loop_succeeds)

lemma first_refusal:
  "(\<forall>j<n::nat. broker j = None) \<or> (\<exists>k<n. broker k \<noteq> None \<and> (\<forall>j<k. broker j = None))"
proof (induction n)
  case 0
  show ?case by simp
next
  case (Suc n)
  then show ?case
  proof
    assume a: "\<forall>j<n. broker j = None"
    show ?thesis
    proof (cases "broker n")
      case None
      with a have "\<forall>j<Suc n. broker j = None" by (simp add: less_Suc_eq)
      then show ?thesis by blast
    next
      case (Some err)
      with a show ?thesis by auto
    qed
  next
    assume "\<exists>k<n. broker k \<noteq> None \<and> (\<forall>j<k. broker j = None)"
    then show ?thesis using less_Suc_eq by auto
  qed
qed

text \<open>Whatever the broker answers, \<^verbatim>\<open>Subscribe\<close> starts some number of workers and no more.\<close>


lemma Subscribe_state:
  obtains k tail where "k \<le> nat (SubscribersCount (config s))"
    and "fst (Subscribe broker ctx topic s) =
           tail ((started ctx topic (fresh s) ^^ k) (entered s))"
    and "tail = id \<or> tail = (\<lambda>s'. emit (subscribe_event topic (config s))
                                  (emit (Log_Debug ''Starting subscriber'') s'))"
proof -
  let ?n = "nat (SubscribersCount (config s))"
  from first_refusal [of ?n broker] show thesis
  proof
    assume "\<forall>j<?n. broker j = None"
    then have "fst (Subscribe broker ctx topic s) =
        id ((started ctx topic (fresh s) ^^ ?n) (entered s))"
      by (simp add: Subscribe_succeeds)
    then show thesis using that [of ?n id] by blast
  next
    assume "\<exists>k<?n. broker k \<noteq> None \<and> (\<forall>j<k. broker j = None)"
    then obtain k err where k: "k < ?n" "broker k = Some err" "\<forall>j<k. broker j = None"
      by auto
    have "fst (Subscribe broker ctx topic s) =
        (\<lambda>s'. emit (subscribe_event topic (config s)) (emit (Log_Debug ''Starting subscriber'') s'))
          ((started ctx topic (fresh s) ^^ k) (entered s))"
      by (simp add: Subscribe_fails [OF k])
    then show thesis using that [of k] k(1) by simp
  qed
qed

lemma Subscribe_fields:
  obtains k where "k \<le> nat (SubscribersCount (config s))"
    and "config (fst (Subscribe broker ctx topic s)) = config s"
    and "closed (fst (Subscribe broker ctx topic s)) = closed s"
    and "closing (fst (Subscribe broker ctx topic s)) = closing s"
    and "outputsWg (fst (Subscribe broker ctx topic s)) = Suc (outputsWg s)"
    and "closed_chans (fst (Subscribe broker ctx topic s)) = closed_chans s"
    and "cancelled (fst (Subscribe broker ctx topic s)) = cancelled s"
    and "fresh (fst (Subscribe broker ctx topic s)) = Suc (fresh s) + k"
    and "subs (fst (Subscribe broker ctx topic s)) = subs s @ [Suc (fresh s)..<Suc (fresh s) + k]"
    and "live_subs (fst (Subscribe broker ctx topic s)) =
           live_subs s @ [Suc (fresh s)..<Suc (fresh s) + k]"
    and "goroutines (fst (Subscribe broker ctx topic s)) =
           goroutines s @
           map (\<lambda>h. \<lparr>w_sub = h, w_output = fresh s, w_ctx = ctx, w_pc = at_select\<rparr>)
             [Suc (fresh s)..<Suc (fresh s) + k]"
proof -
  obtain k tail where k: "k \<le> nat (SubscribersCount (config s))"
    and s': "fst (Subscribe broker ctx topic s) =
           tail ((started ctx topic (fresh s) ^^ k) (entered s))"
    and tail: "tail = id \<or> tail = (\<lambda>s'. emit (subscribe_event topic (config s))
                                  (emit (Log_Debug ''Starting subscriber'') s'))"
    by (rule Subscribe_state)
  from tail show thesis
  proof
    assume "tail = id"
    with s' k show thesis by (intro that [of k]) (simp_all add: started_funpow_lists)
  next
    assume "tail = (\<lambda>s'. emit (subscribe_event topic (config s))
                                  (emit (Log_Debug ''Starting subscriber'') s'))"
    with s' k show thesis by (intro that [of k]) (simp_all add: started_funpow_lists)
  qed
qed


lemma list_all_update:
  "list_all P xs \<Longrightarrow> P x \<Longrightarrow> list_all P (xs[i := x])"
  by (induction xs arbitrary: i) (auto split: nat.splits)

lemma workers_waiting_watcher_step:
  assumes "workers_waiting ctx H s"
  shows "workers_waiting ctx H (watcher_step sc i s)"
proof (cases "i < length (goroutines s)")
  case False
  with assms show ?thesis by (simp add: watcher_step_def)
next
  case True
  let ?w = "goroutines s ! i"
  from assms have all: "list_all (\<lambda>w. w_sub w \<in> H \<longrightarrow> w_ctx w = ctx \<and> w_pc w = at_select) (goroutines s)"
    by (simp add: workers_waiting_def)
  with True have w: "w_sub ?w \<in> H \<longrightarrow> w_ctx ?w = ctx \<and> w_pc ?w = at_select"
    by (simp add: list_all_length)
  have moved: "list_all (\<lambda>w. w_sub w \<in> H \<longrightarrow> w_ctx w = ctx \<and> w_pc w = at_select)
      ((goroutines s)[i := ?w\<lparr>w_pc := pc\<rparr>])" if "w_sub ?w \<notin> H" for pc
    using all that by (intro list_all_update) simp_all
  show ?thesis
  proof (cases "w_pc ?w")
    case at_select
    show ?thesis
    proof (cases "closing s \<or> w_ctx ?w \<in> set (cancelled s)")
      case False
      with True at_select assms show ?thesis by (simp add: watcher_step_def)
    next
      case woken: True
      with assms w have "w_sub ?w \<notin> H" by (auto simp add: workers_waiting_def)
      with True at_select woken assms moved show ?thesis
        by (simp add: watcher_step_def workers_waiting_def)
    qed
  next
    case at_sub_Close
    with w have out: "w_sub ?w \<notin> H" by auto
    then have "H \<subseteq> set (removeAll (w_sub ?w) (live_subs s))"
      using assms by (auto simp add: workers_waiting_def)
    with True at_sub_Close assms moved [OF out] show ?thesis
      by (simp add: watcher_step_def workers_waiting_def Let_def split: option.splits)
  next
    case at_close_output
    with w have out: "w_sub ?w \<notin> H" by auto
    with True at_close_output assms moved [OF out] show ?thesis
      by (simp add: watcher_step_def workers_waiting_def Let_def)
  next
    case at_outputsWg_Done
    with w have out: "w_sub ?w \<notin> H" by auto
    with True at_outputsWg_Done assms moved [OF out] show ?thesis
      by (simp add: watcher_step_def workers_waiting_def Let_def)
  next
    case returned
    with True assms show ?thesis by (simp add: watcher_step_def)
  next
    case panicked
    with True assms show ?thesis by (simp add: watcher_step_def)
  qed
qed

lemma workers_waiting_cancel:
  "workers_waiting ctx H s \<Longrightarrow> c \<noteq> ctx \<Longrightarrow> workers_waiting ctx H (cancel c s)"
  by (simp add: workers_waiting_def cancel_def)

lemma processMessage_frame [simp]:
  "config (processMessage ctx m output sel1 sel2 ack s) = config s"
  "subs (processMessage ctx m output sel1 sel2 ack s) = subs s"
  "closed (processMessage ctx m output sel1 sel2 ack s) = closed s"
  "closing (processMessage ctx m output sel1 sel2 ack s) = closing s"
  "outputsWg (processMessage ctx m output sel1 sel2 ack s) = outputsWg s"
  "goroutines (processMessage ctx m output sel1 sel2 ack s) = goroutines s"
  "live_subs (processMessage ctx m output sel1 sel2 ack s) = live_subs s"
  "closed_chans (processMessage ctx m output sel1 sel2 ack s) = closed_chans s"
  by (simp_all add: processMessage_def deliver_def await_resolution_def Let_def
        split: option.splits sum.splits delivery.splits resolution.splits)

lemma processMessage_fresh: "fresh s \<le> fresh (processMessage ctx m output sel1 sel2 ack s)"
  by (simp add: processMessage_def deliver_def await_resolution_def Let_def
        split: option.splits sum.splits delivery.splits resolution.splits)

lemma processMessage_cancelled:
  "set (cancelled (processMessage ctx m output sel1 sel2 ack s)) \<subseteq>
     insert (message_context (fresh s)) (set (cancelled s))"
  by (simp add: processMessage_def Let_def subset_insertI split: option.splits sum.splits)

lemma workers_waiting_processMessage:
  assumes "workers_waiting (caller_context c) H s"
  shows "workers_waiting (caller_context c) H (processMessage ctx m output sel1 sel2 ack s)"
proof -
  have "caller_context c \<notin> set (cancelled (processMessage ctx m output sel1 sel2 ack s))"
    using assms processMessage_cancelled [of ctx m _ sel1 sel2 ack s]
    by (auto simp add: workers_waiting_def)
  moreover have "\<forall>h\<in>H. h < fresh (processMessage ctx m output sel1 sel2 ack s)"
  proof
    fix h assume "h \<in> H"
    with assms have "h < fresh s" by (simp add: workers_waiting_def)
    also have "fresh s \<le> fresh (processMessage ctx m output sel1 sel2 ack s)"
      by (rule processMessage_fresh)
    finally show "h < fresh (processMessage ctx m output sel1 sel2 ack s)" .
  qed
  ultimately show ?thesis using assms by (simp add: workers_waiting_def)
qed

lemma workers_waiting_Subscribe:
  assumes "workers_waiting ctx H s"
  shows "workers_waiting ctx H (fst (Subscribe broker ctx' topic s))"
proof -
  obtain k where f: "closing (fst (Subscribe broker ctx' topic s)) = closing s"
    "cancelled (fst (Subscribe broker ctx' topic s)) = cancelled s"
    "fresh (fst (Subscribe broker ctx' topic s)) = Suc (fresh s) + k"
    "subs (fst (Subscribe broker ctx' topic s)) = subs s @ [Suc (fresh s)..<Suc (fresh s) + k]"
    "live_subs (fst (Subscribe broker ctx' topic s)) =
           live_subs s @ [Suc (fresh s)..<Suc (fresh s) + k]"
    "goroutines (fst (Subscribe broker ctx' topic s)) =
           goroutines s @
           map (\<lambda>h. \<lparr>w_sub = h, w_output = fresh s, w_ctx = ctx', w_pc = at_select\<rparr>)
             [Suc (fresh s)..<Suc (fresh s) + k]"
    by (rule Subscribe_fields [of s broker ctx' topic]) blast
  from assms have below: "\<forall>h\<in>H. h < fresh s" by (simp add: workers_waiting_def)
  then have "list_all (\<lambda>w. w_sub w \<in> H \<longrightarrow> w_ctx w = ctx \<and> w_pc w = at_select)
      (map (\<lambda>h. \<lparr>w_sub = h, w_output = fresh s, w_ctx = ctx', w_pc = at_select\<rparr>)
             [Suc (fresh s)..<Suc (fresh s) + k])"
    by (auto simp add: list_all_iff)
  with assms below show ?thesis
    by (auto simp add: workers_waiting_def f)
qed

lemma workers_waiting_execs:
  assumes "workers_waiting (caller_context c) H s"
    and "list_all (leaves_running (caller_context c)) acts"
  shows "workers_waiting (caller_context c) H (execs sc acts s)"
  using assms
proof (induction acts arbitrary: s)
  case Nil
  then show ?case by simp
next
  case (Cons a acts)
  from Cons.prems have a: "leaves_running (caller_context c) a"
    and rest: "list_all (leaves_running (caller_context c)) acts" by simp_all
  have "workers_waiting (caller_context c) H (exec sc a s)"
  proof (cases a)
    case (do_Subscribe broker ctx' topic)
    with Cons.prems(1) show ?thesis by (simp add: workers_waiting_Subscribe)
  next
    case (do_watcher i)
    with Cons.prems(1) show ?thesis by (simp add: workers_waiting_watcher_step)
  next
    case (do_cancel c')
    with a Cons.prems(1) show ?thesis by (simp add: workers_waiting_cancel leaves_running_def)
  next
    case (do_processMessage ctx m out sel1 sel2 ack)
    with Cons.prems(1) show ?thesis by (simp add: workers_waiting_processMessage)
  next
    case (do_Close sched cc)
    with a show ?thesis by (simp add: leaves_running_def)
  qed
  then show ?case using Cons.IH rest by simp
qed

lemma woken_watcher_closes:
  assumes "i < length (goroutines s)" and "w_pc (goroutines s ! i) = at_select"
    and "closing s \<or> w_ctx (goroutines s ! i) \<in> set (cancelled s)"
  shows "w_sub (goroutines s ! i) \<notin> set (live_subs (run sc [i, i] s))"
  using assms
  by (simp add: watcher_step_def Let_def split: option.splits)

lemma woken_watcher_closes_in_Close:
  assumes "i < length (goroutines s)" and "w_pc (goroutines s ! i) = at_select"
    and "\<not> closed s" and "\<not> closing s" and "outputsWg s \<noteq> 0"
  shows "w_sub (goroutines s ! i) \<notin> set (live_subs (fst (Close sc [i, i] cc s)))"
  using assms
  by (simp add: Close_def watcher_step_def Let_def case_prod_beta split: option.splits)

text \<open>
  Claim C9. Let the broker accept the first \<open>k\<close> subscribe calls of a \<^verbatim>\<open>Subscribe\<close> and
  refuse the next. Then \<^verbatim>\<open>Subscribe\<close> returns that error wrapped as "cannot subscribe", and
  the \<open>k\<close> workers stay as they were started: their handles are in \<^verbatim>\<open>s.subs\<close> and open at
  the broker, their watchers wait at the \<^verbatim>\<open>select\<close>, and no subscription was closed during
  the call. If the subscriber is not closing and the caller's context not cancelled, the
  handles stay registered and open through every run without a \<^verbatim>\<open>Close\<close> and without the
  cancellation of that context; once the context is cancelled, or \<^verbatim>\<open>Close\<close> is called, a
  watcher that gets to run closes its subscription.
\<close>

theorem Subscribe_error_keeps_started_workers:
  fixes s :: "'m StreamingSubscriber" and c k :: nat
    and broker :: "nat \<Rightarrow> error option" and topic :: string
  defines "ctx \<equiv> caller_context c"
  defines "s' \<equiv> fst (Subscribe broker (caller_context c) topic s)"
  defines "H \<equiv> [Suc (fresh s)..<Suc (fresh s) + k]"
  defines "n \<equiv> length (goroutines s)"
  assumes "k < nat (SubscribersCount (config s))" and "broker k = Some err"
    and "\<forall>j<k. broker j = None" and "handles_allocated s"
  shows "snd (Subscribe broker (caller_context c) topic s) = Inl (errors_Wrap err ''cannot subscribe'')
    \<and> subs s' = subs s @ H \<and> live_subs s' = live_subs s @ H
    \<and> goroutines s' =
        goroutines s @ map (\<lambda>h. \<lparr>w_sub = h, w_output = fresh s, w_ctx = ctx, w_pc = at_select\<rparr>) H
    \<and> (\<forall>h. sub_Close h \<notin> set (since s s'))
    \<and> (\<not> closing s \<and> ctx \<notin> set (cancelled s) \<longrightarrow>
         (\<forall>acts. list_all (leaves_running ctx) acts \<longrightarrow>
            set H \<subseteq> set (live_subs (execs sc acts s')) \<and> set H \<subseteq> set (subs (execs sc acts s'))))
    \<and> (\<forall>j<k. Suc (fresh s) + j \<notin> set (live_subs (run sc [n + j, n + j] (cancel ctx s'))))
    \<and> (\<not> closed s \<and> \<not> closing s \<longrightarrow>
         (\<forall>j<k. Suc (fresh s) + j \<notin> set (live_subs (fst (Close sc [n + j, n + j] cc s')))))"
proof -
  let ?new = "map (\<lambda>h. \<lparr>w_sub = h, w_output = fresh s, w_ctx = ctx, w_pc = at_select\<rparr>) H"
  have S: "Subscribe broker (caller_context c) topic s =
     (emit (subscribe_event topic (config s))
        (emit (Log_Debug ''Starting subscriber'') ((started ctx topic (fresh s) ^^ k) (entered s))),
      Inl (errors_Wrap err ''cannot subscribe''))"
    unfolding ctx_def using assms(5,6,7) by (rule Subscribe_fails)
  have r: "snd (Subscribe broker (caller_context c) topic s) = Inl (errors_Wrap err ''cannot subscribe'')"
    by (simp add: S)
  have subs: "subs s' = subs s @ H" and live: "live_subs s' = live_subs s @ H"
    and gs: "goroutines s' = goroutines s @ ?new"
    and fresh: "fresh s' = Suc (fresh s) + k"
    and same: "closing s' = closing s" "cancelled s' = cancelled s" "closed s' = closed s"
      "outputsWg s' = Suc (outputsWg s)"
    by (simp_all add: s'_def S H_def started_funpow_lists)
  obtain evs where evs: "history ((started ctx topic (fresh s) ^^ k) (entered s)) =
      history (entered s) @ evs" "\<forall>h. sub_Close h \<notin> set evs"
    using started_funpow_history by blast
  have "since s s' = outputsWg_Add # evs @
      [Log_Debug ''Starting subscriber'', subscribe_event topic (config s)]"
    by (rule since_append) (simp add: s'_def S evs(1))
  with evs(2) have quiet: "\<forall>h. sub_Close h \<notin> set (since s s')"
    by (simp add: subscribe_event_def)
  have old: "w_sub w \<notin> set H" if "w \<in> set (goroutines s)" for w
    using that assms(8) by (auto simp add: handles_allocated_def list_all_iff H_def)
  have stay: "set H \<subseteq> set (live_subs (execs sc acts s')) \<and> set H \<subseteq> set (subs (execs sc acts s'))"
    if run: "\<not> closing s" "ctx \<notin> set (cancelled s)" "list_all (leaves_running ctx) acts" for acts
  proof -
    have "list_all (\<lambda>w. w_sub w \<in> set H \<longrightarrow> w_ctx w = ctx \<and> w_pc w = at_select) (goroutines s')"
      using old by (auto simp add: gs list_all_iff)
    then have "workers_waiting ctx (set H) s'"
      using run(1,2) by (auto simp add: workers_waiting_def same subs live fresh H_def)
    then have "workers_waiting ctx (set H) (execs sc acts s')"
      unfolding ctx_def using run(3) [unfolded ctx_def] by (rule workers_waiting_execs)
    then show ?thesis by (simp add: workers_waiting_def)
  qed
  have mine: "n + j < length (goroutines s')" "w_pc (goroutines s' ! (n + j)) = at_select"
    "w_ctx (goroutines s' ! (n + j)) = ctx" "w_sub (goroutines s' ! (n + j)) = Suc (fresh s) + j"
    if "j < k" for j
  proof -
    have "goroutines s' ! (n + j) = ?new ! j"
      by (simp add: gs n_def nth_append)
    also have "\<dots> = \<lparr>w_sub = Suc (fresh s) + j, w_output = fresh s, w_ctx = ctx, w_pc = at_select\<rparr>"
      using that unfolding H_def by (simp del: upt_Suc)
    finally have w: "goroutines s' ! (n + j) =
        \<lparr>w_sub = Suc (fresh s) + j, w_output = fresh s, w_ctx = ctx, w_pc = at_select\<rparr>" .
    show "n + j < length (goroutines s')" using that by (simp add: gs n_def H_def del: upt_Suc)
    show "w_pc (goroutines s' ! (n + j)) = at_select" "w_ctx (goroutines s' ! (n + j)) = ctx"
      "w_sub (goroutines s' ! (n + j)) = Suc (fresh s) + j"
      by (simp_all add: w)
  qed
  have cancelled: "Suc (fresh s) + j \<notin> set (live_subs (run sc [n + j, n + j] (cancel ctx s')))"
    if "j < k" for j
    using woken_watcher_closes [of "n + j" "cancel ctx s'" sc] mine [OF that]
    by (simp add: cancel_def)
  have closing: "Suc (fresh s) + j \<notin> set (live_subs (fst (Close sc [n + j, n + j] cc s')))"
    if "j < k" "\<not> closed s" "\<not> closing s" for j
    using woken_watcher_closes_in_Close [of "n + j" s' sc cc] mine [OF that(1)] that(2,3)
    by (simp add: same)
  from r subs live gs quiet stay cancelled closing show ?thesis by blast
qed



lemma example_subscriber_fields:
  "config (example_subscriber n) = setDefaults (example_config n)"
  "subs (example_subscriber n) = []" "closed (example_subscriber n) = False"
  "closing (example_subscriber n) = False" "outputsWg (example_subscriber n) = 0"
  "goroutines (example_subscriber n) = []" "live_subs (example_subscriber n) = []"
  "closed_chans (example_subscriber n) = []" "cancelled (example_subscriber n) = []"
  "fresh (example_subscriber n) = 0" "panics (example_subscriber n) = []"
  by (simp_all add: example_subscriber_def)


theorem Subscribe_error_keeps_started_workers_witness:
  "2 < nat (SubscribersCount (config (example_subscriber 3)))
   \<and> refusing 2 2 = Some (errors_New ''refused'')
   \<and> handles_allocated (example_subscriber 3)
   \<and> snd (Subscribe (refusing 2) (caller_context 5) ''orders'' (example_subscriber 3)) =
       Inl (errors_Wrap (errors_New ''refused'') ''cannot subscribe'')
   \<and> subs (fst (Subscribe (refusing 2) (caller_context 5) ''orders'' (example_subscriber 3))) = [1, 2]
   \<and> live_subs (fst (Subscribe (refusing 2) (caller_context 5) ''orders'' (example_subscriber 3))) = [1, 2]
   \<and> set [1, 2] \<subseteq> set (live_subs (execs (\<lambda>h. None)
         [do_watcher 0, do_cancel (caller_context 6), do_watcher 1, do_watcher 0]
         (fst (Subscribe (refusing 2) (caller_context 5) ''orders'' (example_subscriber 3)))))
   \<and> 1 \<notin> set (live_subs (run (\<lambda>h. None) [0, 0]
         (cancel (caller_context 5)
           (fst (Subscribe (refusing 2) (caller_context 5) ''orders'' (example_subscriber 3))))))"
proof -
  have a: "2 < nat (SubscribersCount (config (example_subscriber 3)))"
    by (simp add: example_subscriber_fields setDefaults_fields example_config_def)
  have b: "refusing 2 2 = Some (errors_New ''refused'')"
    by (simp add: refusing_def)
  have c: "\<forall>j<2. refusing 2 j = None"
    by (simp add: refusing_def)
  have d: "handles_allocated (example_subscriber 3)"
    by (simp add: handles_allocated_def example_subscriber_fields)
  have e: "list_all (leaves_running (caller_context 5))
      [do_watcher 0, do_cancel (caller_context 6), do_watcher 1, do_watcher 0 :: nat action]"
    by (simp add: leaves_running_def)
  have f: "[Suc (fresh (example_subscriber 3))..<Suc (fresh (example_subscriber 3)) + 2] = [1, 2]"
    by (simp add: example_subscriber_fields upt_conv_Cons)
  have g: "\<not> closing (example_subscriber 3)
      \<and> caller_context 5 \<notin> set (cancelled (example_subscriber 3))"
    by (simp add: example_subscriber_fields)
  note T = Subscribe_error_keeps_started_workers [OF a b c d, of 5 "''orders''" "\<lambda>h. None",
      unfolded f]
  note stay = T [THEN conjunct2, THEN conjunct2, THEN conjunct2, THEN conjunct2, THEN conjunct2,
      THEN conjunct1, rule_format, OF g e]
  note woken = T [THEN conjunct2, THEN conjunct2, THEN conjunct2, THEN conjunct2, THEN conjunct2,
      THEN conjunct2, THEN conjunct1, rule_format, of 0]
  have h: "1 \<notin> set (live_subs (run (\<lambda>h. None) [0, 0]
         (cancel (caller_context 5)
           (fst (Subscribe (refusing 2) (caller_context 5) ''orders'' (example_subscriber 3))))))"
    using woken by (simp add: example_subscriber_fields del: run.simps)
  from a b d T [THEN conjunct1] T [THEN conjunct2, THEN conjunct1]
    T [THEN conjunct2, THEN conjunct2, THEN conjunct1] stay [THEN conjunct1] h
  show ?thesis by (simp add: example_subscriber_fields del: run.simps execs.simps)
qed

subsection \<open>The wait group of the outputs\<close>

lemma Done_to_come_same_side:
  assumes "before_close w" and "before_close w'" and "w_output w' = w_output w"
  shows "Done_to_come (xs @ w' # ys) chans = Done_to_come (xs @ w # ys) chans"
  using assms by (auto simp add: Done_to_come_def before_close_def)

lemma Done_to_come_close_panics:
  assumes "before_close w" and "w_output w \<in> set chans"
    and "\<not> before_close w'" and "w_pc w' \<noteq> at_outputsWg_Done"
  shows "Done_to_come (xs @ w' # ys) chans = Done_to_come (xs @ w # ys) chans"
  using assms by (auto simp add: Done_to_come_def before_close_def insert_Diff_if)

lemma Done_to_come_close:
  assumes "before_close w" and "w_output w \<notin> set chans" and "w_pc w' = at_outputsWg_Done"
  shows "Done_to_come (xs @ w' # ys) (chans @ [w_output w]) = Done_to_come (xs @ w # ys) chans"
proof -
  let ?X = "set (map w_output (filter before_close xs)) \<union> set (map w_output (filter before_close ys))"
  have w: "w_pc w \<noteq> at_outputsWg_Done" "\<not> before_close w'"
    using assms by (auto simp add: before_close_def)
  have "insert (w_output w) ?X - set chans = insert (w_output w) (?X - (set chans \<union> {w_output w}))"
    using assms(2) by auto
  moreover have "card (insert (w_output w) (?X - (set chans \<union> {w_output w}))) =
      Suc (card (?X - (set chans \<union> {w_output w})))"
    by (rule card_insert_disjoint) auto
  ultimately have "card (insert (w_output w) ?X - set chans) =
      Suc (card (?X - (set chans \<union> {w_output w})))"
    by simp
  then show ?thesis
    using assms(1,3) w by (simp add: Done_to_come_def Un_insert_right Un_Diff)
qed

lemma Done_to_come_Done:
  assumes "w_pc w = at_outputsWg_Done" and "\<not> before_close w'" and "w_pc w' \<noteq> at_outputsWg_Done"
  shows "Suc (Done_to_come (xs @ w' # ys) chans) = Done_to_come (xs @ w # ys) chans"
  using assms by (auto simp add: Done_to_come_def before_close_def)


lemma pending_Done_split:
  assumes "i < length (goroutines s)"
  shows "pending_Done s =
    Done_to_come (take i (goroutines s) @ (goroutines s ! i) # drop (Suc i) (goroutines s))
      (closed_chans s)"
  using assms by (simp add: pending_Done_def id_take_nth_drop [symmetric])

lemma pending_Done_moved:
  assumes "i < length (goroutines s)"
  shows "pending_Done (set_pc i pc s) =
    Done_to_come (take i (goroutines s) @ (goroutines s ! i)\<lparr>w_pc := pc\<rparr> # drop (Suc i) (goroutines s))
      (closed_chans s)"
  using assms by (simp add: pending_Done_def upd_conv_take_nth_drop)

lemma pending_Done_emit [simp]: "pending_Done (emit e s) = pending_Done s"
  by (simp add: pending_Done_def)

lemma pending_Done_raise [simp]: "pending_Done (raise p s) = pending_Done s"
  by (simp add: pending_Done_def)

lemma watcher_step_slack:
  "outputsWg s + pending_Done (watcher_step sc i s) \<le> outputsWg (watcher_step sc i s) + pending_Done s"
proof (cases "i < length (goroutines s)")
  case False
  then show ?thesis by (simp add: watcher_step_def)
next
  case True
  let ?w = "goroutines s ! i"
  let ?xs = "take i (goroutines s)" and ?ys = "drop (Suc i) (goroutines s)"
  note split = pending_Done_split [OF True]
  show ?thesis
  proof (cases "w_pc ?w")
    case at_select
    have "Done_to_come (?xs @ ?w\<lparr>w_pc := at_sub_Close\<rparr> # ?ys) (closed_chans s) =
        Done_to_come (?xs @ ?w # ?ys) (closed_chans s)"
      using at_select by (intro Done_to_come_same_side) (simp_all add: before_close_def)
    with True at_select show ?thesis
      by (simp add: watcher_step_def pending_Done_moved split)
  next
    case at_sub_Close
    have same: "Done_to_come (?xs @ ?w\<lparr>w_pc := at_close_output\<rparr> # ?ys) (closed_chans s) =
        Done_to_come (?xs @ ?w # ?ys) (closed_chans s)"
      using at_sub_Close by (intro Done_to_come_same_side) (simp_all add: before_close_def)
    let ?s1 = "emit (sub_Close (w_sub ?w)) (s\<lparr>live_subs := removeAll (w_sub ?w) (live_subs s)\<rparr>)"
    let ?s2 = "case sc (w_sub ?w) of
                 Some err \<Rightarrow> emit (Log_Error ''Cannot close subscriber'' err) ?s1
               | None \<Rightarrow> ?s1"
    have s2: "goroutines ?s2 = goroutines s" "closed_chans ?s2 = closed_chans s"
      "outputsWg ?s2 = outputsWg s"
      by (simp_all add: emit_def split: option.splits)
    have "watcher_step sc i s = set_pc i at_close_output ?s2"
      using True at_sub_Close by (simp add: watcher_step_def Let_def)
    moreover have "pending_Done (set_pc i at_close_output ?s2) = pending_Done s"
      using True by (simp add: pending_Done_moved s2 same split)
    ultimately show ?thesis by (simp add: s2)
  next
    case at_close_output
    show ?thesis
    proof (cases "w_output ?w \<in> set (closed_chans s)")
      case closed_already: True
      have "Done_to_come (?xs @ ?w\<lparr>w_pc := panicked\<rparr> # ?ys) (closed_chans s) =
          Done_to_come (?xs @ ?w # ?ys) (closed_chans s)"
        using at_close_output closed_already
        by (intro Done_to_come_close_panics) (simp_all add: before_close_def)
      with True at_close_output closed_already show ?thesis
        by (simp add: watcher_step_def Let_def pending_Done_moved split)
    next
      case still_open: False
      let ?s1 = "(emit (close_output (w_output ?w)) s)\<lparr>closed_chans := closed_chans s @ [w_output ?w]\<rparr>"
      have "Done_to_come (?xs @ ?w\<lparr>w_pc := at_outputsWg_Done\<rparr> # ?ys)
            (closed_chans s @ [w_output ?w]) =
          Done_to_come (?xs @ ?w # ?ys) (closed_chans s)"
        using at_close_output still_open
        by (intro Done_to_come_close) (simp_all add: before_close_def)
      moreover have "watcher_step sc i s = set_pc i at_outputsWg_Done ?s1"
        using True at_close_output still_open by (simp add: watcher_step_def Let_def)
      moreover have "pending_Done (set_pc i at_outputsWg_Done ?s1) =
          Done_to_come (?xs @ ?w\<lparr>w_pc := at_outputsWg_Done\<rparr> # ?ys) (closed_chans s @ [w_output ?w])"
        using True by (simp add: pending_Done_moved)
      ultimately show ?thesis by (simp add: split)
    qed
  next
    case at_outputsWg_Done
    have "Suc (Done_to_come (?xs @ ?w\<lparr>w_pc := pc\<rparr> # ?ys) (closed_chans s)) =
        Done_to_come (?xs @ ?w # ?ys) (closed_chans s)" if "pc = returned \<or> pc = panicked" for pc
      using at_outputsWg_Done that
      by (intro Done_to_come_Done) (auto simp add: before_close_def)
    from this [of returned] this [of panicked] True at_outputsWg_Done show ?thesis
      by (simp add: watcher_step_def Let_def pending_Done_moved split) linarith
  next
    case returned
    with True show ?thesis by (simp add: watcher_step_def)
  next
    case panicked
    with True show ?thesis by (simp add: watcher_step_def)
  qed
qed

lemma slack_refl [simp]: "slack s s"
  by (simp add: slack_def)

lemma slack_trans: "slack s s' \<Longrightarrow> slack s' s'' \<Longrightarrow> slack s s''"
  by (simp add: slack_def)

lemma slack_same:
  "outputsWg s' = outputsWg s \<Longrightarrow> goroutines s' = goroutines s
     \<Longrightarrow> closed_chans s' = closed_chans s \<Longrightarrow> slack s s'"
  by (simp add: slack_def pending_Done_def)

lemma slack_watcher_step: "slack s (watcher_step sc i s)"
  unfolding slack_def by (rule watcher_step_slack)

lemma slack_run: "slack s (run sc sched s)"
proof (induction sched arbitrary: s)
  case Nil
  show ?case by simp
next
  case (Cons i sched)
  from slack_watcher_step Cons.IH show ?case
    unfolding run.simps by (rule slack_trans)
qed

lemma slack_WaitGroupTimeout: "slack s (fst (WaitGroupTimeout sc sched s))"
proof (induction sched arbitrary: s)
  case Nil
  show ?case by simp
next
  case (Cons i sched)
  show ?case
  proof (cases "outputsWg s = 0")
    case True
    then show ?thesis by simp
  next
    case False
    from slack_watcher_step [of s sc i] Cons.IH [of "watcher_step sc i s"]
    have "slack s (fst (WaitGroupTimeout sc sched (watcher_step sc i s)))"
      by (rule slack_trans)
    with False show ?thesis by simp
  qed
qed

lemma Done_to_come_started:
  "Done_to_come (ws @ map (\<lambda>h. \<lparr>w_sub = h, w_output = out, w_ctx = ctx, w_pc = at_select\<rparr>) hs) chans
     \<le> Suc (Done_to_come ws chans)"
proof -
  let ?new = "map (\<lambda>h. \<lparr>w_sub = h, w_output = out, w_ctx = ctx, w_pc = at_select\<rparr>) hs"
  let ?B = "set (map w_output (filter before_close ws))"
  have "set (map w_output (filter before_close ?new)) \<subseteq> {out}"
    by auto
  then have "(?B \<union> set (map w_output (filter before_close ?new))) - set chans
      \<subseteq> insert out (?B - set chans)"
    by auto
  then have "card ((?B \<union> set (map w_output (filter before_close ?new))) - set chans)
      \<le> card (insert out (?B - set chans))"
    by (intro card_mono) simp_all
  also have "\<dots> \<le> Suc (card (?B - set chans))"
    by (rule card_insert_le_m1) simp_all
  finally have "card ((?B \<union> set (map w_output (filter before_close ?new))) - set chans)
      \<le> Suc (card (?B - set chans))" .
  moreover have "filter (\<lambda>w. w_pc w = at_outputsWg_Done) ?new = []"
    by (simp add: filter_empty_conv)
  ultimately show ?thesis
    by (simp add: Done_to_come_def)
qed

lemma slack_Subscribe: "slack s (fst (Subscribe broker ctx topic s))"
proof -
  obtain k where f: "outputsWg (fst (Subscribe broker ctx topic s)) = Suc (outputsWg s)"
    "closed_chans (fst (Subscribe broker ctx topic s)) = closed_chans s"
    "goroutines (fst (Subscribe broker ctx topic s)) =
           goroutines s @
           map (\<lambda>h. \<lparr>w_sub = h, w_output = fresh s, w_ctx = ctx, w_pc = at_select\<rparr>)
             [Suc (fresh s)..<Suc (fresh s) + k]"
    by (rule Subscribe_fields [of s broker ctx topic]) blast
  show ?thesis
    using Done_to_come_started [of "goroutines s" "fresh s" ctx _ "closed_chans s"]
    by (simp add: slack_def pending_Done_def f)
qed

lemma slack_processMessage: "slack s (processMessage ctx m output sel1 sel2 ack s)"
  by (rule slack_same) simp_all

lemma slack_cancel: "slack s (cancel ctx s)"
  by (rule slack_same) (simp_all add: cancel_def)

lemma Close_signalled:
  assumes "\<not> closed s" and "\<not> closing s"
  shows "Close sc sched cc s =
      (emit (Log_Info ''StreamingSubscriber closed'')
         (emit conn_Close
            (emit (WaitGroupTimeout_returned (CloseTimeout (config s))
                     (snd (WaitGroupTimeout sc sched (signalled s))))
               (fst (WaitGroupTimeout sc sched (signalled s))))),
       Inr (case cc of None \<Rightarrow> None | Some err \<Rightarrow> Some (errors_Wrap err ''cannot close conn'')))"
  using assms by (simp add: Close_def signalled_def Let_def case_prod_beta split: option.splits)

lemma signalled_fields [simp]:
  "config (signalled s) = config s" "outputsWg (signalled s) = outputsWg s"
  "goroutines (signalled s) = goroutines s" "closed_chans (signalled s) = closed_chans s"
  "history (signalled s) = history s @ [closed_set, Log_Debug ''Closing subscriber'', close_closing]"
  by (simp_all add: signalled_def)

lemma slack_Close: "slack s (fst (Close sc sched cc s))"
proof (cases "closed s")
  case True
  then show ?thesis by (simp add: Close_closed)
next
  case False
  show ?thesis
  proof (cases "closing s")
    case True
    with False show ?thesis by (intro slack_same) (simp_all add: Close_def Let_def)
  next
    case running: False
    have "slack s (signalled s)" by (rule slack_same) simp_all
    then have "slack s (fst (WaitGroupTimeout sc sched (signalled s)))"
      using slack_WaitGroupTimeout by (rule slack_trans)
    then show ?thesis
      by (simp add: Close_signalled [OF False running] slack_def)
  qed
qed

lemma slack_exec: "slack s (exec sc a s)"
  by (cases a)
    (simp_all add: slack_Subscribe slack_watcher_step slack_cancel slack_processMessage slack_Close)

lemma slack_execs: "slack s (execs sc acts s)"
proof (induction acts arbitrary: s)
  case Nil
  show ?case by simp
next
  case (Cons a acts)
  from slack_exec Cons.IH show ?case
    unfolding execs.simps by (rule slack_trans)
qed

lemma Close_frame [simp]: "config (fst (Close sc sched cc s)) = config s"
  by (simp add: Close_def Let_def case_prod_beta split: option.splits)

lemma config_Subscribe [simp]: "config (fst (Subscribe broker ctx topic s)) = config s"
  by (rule Subscribe_fields [of s broker ctx topic])

lemma config_exec [simp]: "config (exec sc a s) = config s"
  by (cases a) (simp_all add: cancel_def)

lemma config_execs [simp]: "config (execs sc acts s) = config s"
  by (induction acts arbitrary: s) simp_all








lemma example_subscribed_2:
  "example_subscribed 2 =
    \<lparr>config = setDefaults (example_config 2), subs = [1, 2], closed = False, closing = False,
     outputsWg = 1, processingMessagesWg = 0,
     goroutines = [\<lparr>w_sub = 1, w_output = 0, w_ctx = caller_context 5, w_pc = at_select\<rparr>,
                   \<lparr>w_sub = 2, w_output = 0, w_ctx = caller_context 5, w_pc = at_select\<rparr>],
     live_subs = [1, 2], closed_chans = [], cancelled = [], fresh = 3, panics = [],
     history = [stan_Connect ''cluster'' ''client'' [], outputsWg_Add,
                Log_Debug ''Starting subscriber'',
                conn_QueueSubscribe ''orders'' ''g'' [stan_SetManualAckMode, stan_AckWait 30000000000],
                go_watcher 1,
                Log_Debug ''Starting subscriber'',
                conn_QueueSubscribe ''orders'' ''g'' [stan_SetManualAckMode, stan_AckWait 30000000000],
                go_watcher 2]\<rparr>"
  by (simp add: subscribe_defs example_defs time_Second_def numeral_2_eq_2)

lemma example_subscribed_2_fields:
  "config (example_subscribed 2) = setDefaults (example_config 2)"
  "closed (example_subscribed 2) = False" "closing (example_subscribed 2) = False"
  "outputsWg (example_subscribed 2) = 1"
  "goroutines (example_subscribed 2) =
     [\<lparr>w_sub = 1, w_output = 0, w_ctx = caller_context 5, w_pc = at_select\<rparr>,
      \<lparr>w_sub = 2, w_output = 0, w_ctx = caller_context 5, w_pc = at_select\<rparr>]"
  "closed_chans (example_subscribed 2) = []" "panics (example_subscribed 2) = []"
  by (simp_all add: example_subscribed_2)

lemma Subscribe_keeps_flags [simp]:
  "closed (fst (Subscribe broker ctx topic s)) = closed s"
  "closing (fst (Subscribe broker ctx topic s)) = closing s"
  "outputsWg (fst (Subscribe broker ctx topic s)) = Suc (outputsWg s)"
  by (rule Subscribe_fields [of s broker ctx topic], assumption)+


subsection \<open>Two workers on one output channel\<close>

text \<open>
  Claim C1, at two workers. The subscriber is constructed from the example configuration
  with \<^verbatim>\<open>SubscribersCount = 2\<close>, \<^verbatim>\<open>Subscribe\<close> succeeds and starts two watchers on the one
  output channel 0, and \<^verbatim>\<open>Close\<close> is called. The first watcher runs during the wait: it
  closes the channel and brings the counter to zero, which ends the wait. The second
  watcher runs next: it calls \<^verbatim>\<open>close(output)\<close> on the closed channel and panics. The
  channel has been closed by two goroutines, not by one designated watcher.
\<close>

theorem two_workers_close_output_twice:
  "NewStreamingSubscriber (example_config 2) (\<lambda>cluster client opts. None) =
     ([stan_Connect ''cluster'' ''client'' []], Inr (example_subscriber 2))
   \<and> Subscribe (\<lambda>i. None) (caller_context 5) ''orders'' (example_subscriber 2) =
       (example_subscribed 2, Inr 0)
   \<and> map w_output (goroutines (example_subscribed 2)) = [0, 0]
   \<and> snd (Close (\<lambda>h. None) [0, 0, 0, 0] None (example_subscribed 2)) = Inr None
   \<and> since (example_subscribed 2)
        (run (\<lambda>h. None) [1, 1, 1]
           (fst (Close (\<lambda>h. None) [0, 0, 0, 0] None (example_subscribed 2)))) =
       [closed_set, Log_Debug ''Closing subscriber'', close_closing,
        sub_Close 1, close_output 0, outputsWg_Done,
        WaitGroupTimeout_returned 30000000000 False, conn_Close,
        Log_Info ''StreamingSubscriber closed'',
        sub_Close 2, close_output 0]
   \<and> panics (run (\<lambda>h. None) [1, 1, 1]
        (fst (Close (\<lambda>h. None) [0, 0, 0, 0] None (example_subscribed 2)))) =
       [close_of_closed_channel]"
proof -
  have "Subscribe (\<lambda>i. None) (caller_context 5) ''orders'' (example_subscriber 2) =
       (example_subscribed 2, Inr 0)"
    by (simp add: subscribe_defs example_defs numeral_2_eq_2)
  moreover have "snd (Close (\<lambda>h. None) [0, 0, 0, 0] None (example_subscribed 2)) = Inr None"
    by (simp add: Close_open(4) example_subscribed_2_fields)
  moreover have "since (example_subscribed 2)
        (run (\<lambda>h. None) [1, 1, 1]
           (fst (Close (\<lambda>h. None) [0, 0, 0, 0] None (example_subscribed 2)))) =
       [closed_set, Log_Debug ''Closing subscriber'', close_closing,
        sub_Close 1, close_output 0, outputsWg_Done,
        WaitGroupTimeout_returned 30000000000 False, conn_Close,
        Log_Info ''StreamingSubscriber closed'',
        sub_Close 2, close_output 0]"
    by (simp add: example_subscribed_2 Close_def watcher_step_def set_pc_def emit_def raise_def
          since_def Let_def example_defs time_Second_def)
  moreover have "panics (run (\<lambda>h. None) [1, 1, 1]
        (fst (Close (\<lambda>h. None) [0, 0, 0, 0] None (example_subscribed 2)))) =
       [close_of_closed_channel]"
    by (simp add: example_subscribed_2 Close_def watcher_step_def set_pc_def emit_def raise_def
          Let_def)
  ultimately show ?thesis
    by (simp add: example_subscriber_constructed example_subscribed_2_fields)
qed

text \<open>
  With one worker the channel is closed once. But nothing makes the watcher wait for a
  delivery in flight (\<^verbatim>\<open>processingMessagesWg\<close> is counted up and down and never waited
  on): once the caller's context is cancelled and the watcher has closed the output
  channel, a callback whose send is chosen panics on the closed channel.
\<close>

lemma callback_sends_on_closed_output:
  "closed_chans (run (\<lambda>h. None) [0, 0, 0, 0] (cancel (caller_context 5) (example_subscribed 1))) = [0]
   \<and> panics (run (\<lambda>h. None) [0, 0, 0, 0] (cancel (caller_context 5) (example_subscribed 1))) = []
   \<and> panics (processMessage (caller_context 5) 1 0 output_receives msg_Acked None
        (run (\<lambda>h. None) [0, 0, 0, 0] (cancel (caller_context 5) (example_subscribed 1)))) =
       [send_on_closed_channel]"
  by (simp add: example_subscribed_1 cancel_def watcher_step_def set_pc_def emit_def raise_def
        Let_def processMessage_def deliver_def example_defs)

subsection \<open>What holds of every subscriber the constructor returns, and stays\<close>

text \<open>
  The theorems above ask that a subscriber is not closing unless closed, that its watchers
  hold handles that were handed out, and that the counter of \<^verbatim>\<open>outputsWg\<close> covers the
  \<^verbatim>\<open>Done\<close> calls to come. A constructed subscriber has all three, and no action takes one
  away.
\<close>

lemma constructed_subscriber:
  assumes "NewStreamingSubscriber c connect = (evs, Inr s)"
  shows "\<not> closed s" and "\<not> closing s" and "outputsWg s = 0" and "pending_Done s = 0"
    and "handles_allocated s" and "config s = setDefaults c"
  using assms
  by (auto simp add: NewStreamingSubscriber_def Let_def pending_Done_def Done_to_come_def
        handles_allocated_def split: option.splits)

lemma covered_execs:
  assumes "pending_Done s \<le> outputsWg s"
  shows "pending_Done (execs sc acts s) \<le> outputsWg (execs sc acts s)"
  using assms slack_execs [of s sc acts] by (simp add: slack_def)

lemma Close_flags:
  "closed (fst (Close sc sched cc s))"
  by (simp_all add: Close_def Let_def case_prod_beta split: option.splits)

lemma closing_only_when_closed_exec:
  assumes "closing s \<longrightarrow> closed s"
  shows "closing (exec sc a s) \<longrightarrow> closed (exec sc a s)"
proof (cases a)
  case (do_Close sched cc)
  then show ?thesis using Close_flags [of sc sched cc s] by simp
qed (use assms in \<open>simp_all add: cancel_def\<close>)

lemma closing_only_when_closed_execs:
  assumes "closing s \<longrightarrow> closed s"
  shows "closing (execs sc acts s) \<longrightarrow> closed (execs sc acts s)"
  using assms
proof (induction acts arbitrary: s)
  case Nil
  then show ?case by simp
next
  case (Cons a acts)
  from Cons.prems have "closing (exec sc a s) \<longrightarrow> closed (exec sc a s)"
    by (rule closing_only_when_closed_exec)
  then show ?case using Cons.IH by simp
qed

lemma handles_moved:
  "map w_sub (ws[i := (ws ! i)\<lparr>w_pc := pc\<rparr>]) = map w_sub ws"
  by (induction ws arbitrary: i) (auto split: nat.splits)

lemma handles_watcher_step [simp]:
  "map w_sub (goroutines (watcher_step sc i s)) = map w_sub (goroutines s)"
  by (simp add: watcher_step_def Let_def handles_moved split: watcher_pc.splits option.splits)

lemma handles_WaitGroupTimeout [simp]:
  "map w_sub (goroutines (fst (WaitGroupTimeout sc sched s))) = map w_sub (goroutines s)"
  by (induction sched arbitrary: s) simp_all

lemma handles_allocated_iff:
  "handles_allocated s \<longleftrightarrow> (\<forall>h\<in>set (map w_sub (goroutines s)). h < fresh s)"
  by (simp add: handles_allocated_def list_all_iff)

lemma handles_allocated_exec:
  assumes "handles_allocated s"
  shows "handles_allocated (exec sc a s)"
proof (cases a)
  case (do_Subscribe broker ctx topic)
  obtain k where f: "fresh (fst (Subscribe broker ctx topic s)) = Suc (fresh s) + k"
    "goroutines (fst (Subscribe broker ctx topic s)) =
           goroutines s @
           map (\<lambda>h. \<lparr>w_sub = h, w_output = fresh s, w_ctx = ctx, w_pc = at_select\<rparr>)
             [Suc (fresh s)..<Suc (fresh s) + k]"
    by (rule Subscribe_fields [of s broker ctx topic]) blast
  from assms show ?thesis
    by (auto simp add: do_Subscribe handles_allocated_iff f)
next
  case (do_watcher i)
  with assms show ?thesis by (simp add: handles_allocated_iff)
next
  case (do_cancel c)
  with assms show ?thesis by (simp add: handles_allocated_iff cancel_def)
next
  case (do_processMessage ctx m out sel1 sel2 ack)
  with assms processMessage_fresh [of s ctx m out sel1 sel2 ack] show ?thesis
    by (fastforce simp add: handles_allocated_iff)
next
  case (do_Close sched cc)
  have "map w_sub (goroutines (fst (Close sc sched cc s))) = map w_sub (goroutines s)"
    "fresh (fst (Close sc sched cc s)) = fresh s"
    by (simp_all add: Close_def Let_def case_prod_beta split: option.splits)
  with assms do_Close show ?thesis by (simp add: handles_allocated_iff)
qed

lemma handles_allocated_execs:
  "handles_allocated s \<Longrightarrow> handles_allocated (execs sc acts s)"
  by (induction acts arbitrary: s) (simp_all add: handles_allocated_exec)

end
